theory Spec2Isabelle
  imports Main "HOL-Library.AList"
begin

section \<open>Data model\<close>

text \<open>
  A Python \<open>str\<close> is a sequence of Unicode code points and \<open>len\<close> counts code points,
  so a word is a list of code points.  Tag names are the ASCII strings of the source.
\<close>

type_synonym pystr = "nat list"
type_synonym tag = string

text \<open>The exceptions the modelled code can raise.\<close>

datatype error = ValueError | KeyError | IndexError

text \<open>
  \<open>class Eojeol(namedtuple('Eojeol', 'w0 w1 t0 t1 b m e'))\<close>: the constructor takes the
  fields in the order of the named tuple; \<open>t1\<close> is \<open>None\<close> or a tag.
\<close>

datatype eojeol = Eojeol (ej_w0: pystr) (ej_w1: pystr) (ej_t0: tag) (ej_t1: "tag option")
  (ej_b: int) (ej_m: int) (ej_e: int)

text \<open>A lattice (\<open>bindex\<close>) is a list of buckets, each a list of records.\<close>

type_synonym lattice = "eojeol list list"

text \<open>
  The tag dictionary \<open>pos_to_words\<close> is a Python dict from tag to a collection of words;
  a dict keeps insertion order, so it is an association list.  The external lemmatizer
  maps a word to its analyses \<open>(w0, w1, t0, t1)\<close>.
\<close>

type_synonym dict = "(tag \<times> pystr list) list"
type_synonym analysis = "pystr \<times> pystr \<times> tag \<times> tag option"
type_synonym lemmatizer = "pystr \<Rightarrow> analysis list"

text \<open>A lookup strategy is the method \<open>eojeol_lookup(eojeol, offset)\<close> of the wrapped object.\<close>

type_synonym strategy = "pystr \<Rightarrow> int \<Rightarrow> error + lattice"

section \<open>Python list primitives\<close>

text \<open>\<open>xs[i]\<close>: a negative index counts from the end, out of range raises IndexError.\<close>

definition py_index :: "'a list \<Rightarrow> int \<Rightarrow> error + 'a" where
  "py_index xs i =
     (if 0 \<le> i \<and> i < int (length xs) then Inr (xs ! nat i)
      else if i < 0 \<and> - int (length xs) \<le> i then Inr (xs ! nat (int (length xs) + i))
      else Inl IndexError)"

text \<open>\<open>xs[:i]\<close> and \<open>xs[i:]\<close>: a negative bound counts from the end, both are clamped.\<close>

definition py_slice_to :: "'a list \<Rightarrow> int \<Rightarrow> 'a list" where
  "py_slice_to xs i = (if i < 0 then take (nat (int (length xs) + i)) xs else take (nat i) xs)"

definition py_slice_from :: "'a list \<Rightarrow> int \<Rightarrow> 'a list" where
  "py_slice_from xs i = (if i < 0 then drop (nat (int (length xs) + i)) xs else drop (nat i) xs)"

section \<open>The lookup cache (class LookupBuffer)\<close>

text \<open>
  The two dicts of the object, in insertion order.  \<open>lookup_calls\<close> is not a field of the
  source: it logs every call of \<open>self.lookup.eojeol_lookup\<close>, so that "the wrapped strategy
  is invoked" is a statement about the state.
\<close>

record lookup_buffer =
  buffer :: "(pystr \<times> lattice) list"
  buffer_counter :: "(pystr \<times> int) list"
  lookup_calls :: "(pystr \<times> int) list"

text \<open>\<open>__init__\<close>: \<open>self.buffer = preanalyzed\<close>, \<open>self._buffer_counter = {k:0 for k in preanalyzed}\<close>.\<close>

definition LookupBuffer_init :: "(pystr \<times> lattice) list option \<Rightarrow> lookup_buffer" where
  "LookupBuffer_init preanalyzed =
     (let preanalyzed = (case preanalyzed of None \<Rightarrow> [] | Some p \<Rightarrow> p)
      in \<lparr>buffer = preanalyzed,
          buffer_counter = map (\<lambda>(k, v). (k, 0)) preanalyzed,
          lookup_calls = []\<rparr>)"

text \<open>
  \<open>eojeol_lookup\<close>.  The object outlives an exception, so the state is returned beside the
  result in every branch.  \<open>self.buffer[eojeol]\<close> raises KeyError on a missing key.
\<close>

definition LookupBuffer_eojeol_lookup ::
  "strategy \<Rightarrow> lookup_buffer \<Rightarrow> pystr \<Rightarrow> int \<Rightarrow> (error + lattice) \<times> lookup_buffer" where
  "LookupBuffer_eojeol_lookup lookup self eojeol offset =
     (let count = (case map_of (buffer_counter self) eojeol of None \<Rightarrow> 0 | Some c \<Rightarrow> c)
      in if count = 0 then
           (let self1 = self\<lparr>lookup_calls := lookup_calls self @ [(eojeol, offset)]\<rparr>
            in case lookup eojeol offset of
                 Inl err \<Rightarrow> (Inl err, self1)
               | Inr result \<Rightarrow>
                   (Inr result,
                    self1\<lparr>buffer := AList.update eojeol result (buffer self1),
                          buffer_counter := AList.update eojeol (count + 1) (buffer_counter self1)\<rparr>))
         else
           (case map_of (buffer self) eojeol of
              None \<Rightarrow> (Inl KeyError, self)
            | Some result \<Rightarrow>
                (Inr result,
                 self\<lparr>buffer_counter := AList.update eojeol (count + 1) (buffer_counter self)\<rparr>)))"

text \<open>
  \<open>compatify_buffer\<close>.  \<open>sorted\<close> is stable, as \<open>sort_key\<close> is; \<open>[:topk]\<close> is a slice;
  \<open>dict(...)\<close> of pairs with distinct keys keeps them in order.
\<close>

definition LookupBuffer_compatify_buffer :: "lookup_buffer \<Rightarrow> int \<Rightarrow> lookup_buffer" where
  "LookupBuffer_compatify_buffer self topk =
     (if int (length (buffer_counter self)) \<le> topk then self
      else
        (let counter' = py_slice_to (sort_key (\<lambda>x. - snd x) (buffer_counter self)) topk;
             buffer' = filter (\<lambda>x. fst x \<in> fst ` set counter') (buffer self)
         in self\<lparr>buffer_counter := counter', buffer := buffer'\<rparr>))"

text \<open>
  The two dicts of a cache are parallel: same keys, and the keys of a dict are distinct.
  \<open>__init__\<close> builds such a state and the methods keep it (lemmas below).
\<close>

definition LookupBuffer_inv :: "lookup_buffer \<Rightarrow> bool" where
  "LookupBuffer_inv self =
     (distinct (map fst (buffer self)) \<and> distinct (map fst (buffer_counter self))
      \<and> fst ` set (buffer self) = fst ` set (buffer_counter self))"

section \<open>Lemmatization and dictionary access\<close>

text \<open>
  Modelled from the spec: \<open>character_is_complete_korean\<close> is imported from
  \<open>soynlp.hangle\<close>, which is not among the sources; the spec says the substring must
  "consist entirely of complete Korean syllable characters", the code points
  U+AC00 to U+D7A3.
\<close>

definition character_is_complete_korean :: "nat \<Rightarrow> bool" where
  "character_is_complete_korean c = (44032 \<le> c \<and> c \<le> 55203)"

definition is_hangle :: "pystr \<Rightarrow> bool" where
  "is_hangle word = list_all character_is_complete_korean word"

definition lemmatize :: "pystr \<Rightarrow> lemmatizer \<Rightarrow> int \<Rightarrow> bool \<Rightarrow> eojeol list" where
  "lemmatize word lemmatizer offset ensure_hangle =
     (if \<not> ensure_hangle \<and> \<not> is_hangle word then []
      else map (\<lambda>(w0, w1, t0, t1).
                  Eojeol w0 w1 t0 t1 offset (offset + int (length w0)) (offset + int (length word)))
             (lemmatizer word))"

definition check_tag :: "pystr \<Rightarrow> tag \<Rightarrow> dict \<Rightarrow> bool" where
  "check_tag word tag pos_to_words =
     (case map_of pos_to_words tag of None \<Rightarrow> False | Some words \<Rightarrow> word \<in> set words)"

definition get_tag :: "pystr \<Rightarrow> dict \<Rightarrow> tag list" where
  "get_tag word pos_to_words = map fst (filter (\<lambda>(tag, words). word \<in> set words) pos_to_words)"

section \<open>The LR lookup strategy (lr\_lookup)\<close>

text \<open>
  One pass of the loop \<open>for i in range(1, n+1)\<close>.  \<open>bindex[0]\<close> exists whenever the loop
  runs; \<open>bindex[i] += r_pred\<close> raises IndexError for \<open>i = n\<close>.
\<close>

definition lr_lookup_step ::
  "pystr \<Rightarrow> lemmatizer \<Rightarrow> dict \<Rightarrow> int \<Rightarrow> nat \<Rightarrow> lattice \<Rightarrow> error + lattice" where
  "lr_lookup_step eojeol lemmatizer dic offset i bindex =
     (let n = length eojeol; l = take i eojeol; r = drop i eojeol;
          bindex1 = (if check_tag l ''Noun'' dic \<and> check_tag r ''Josa'' dic
                     then bindex[0 := bindex ! 0 @
                            [Eojeol l r ''Noun'' (Some ''Josa'') offset (offset + int i) (offset + int n)]]
                     else bindex);
          l_pred = lemmatize l lemmatizer offset False;
          r_pred = lemmatize r lemmatizer (offset + int i) False
      in if (check_tag l ''Noun'' dic \<or> l_pred \<noteq> []) \<and> r_pred \<noteq> [] then
           (let bindex2 = (if check_tag l ''Noun'' dic
                           then bindex1[0 := bindex1 ! 0 @
                                  [Eojeol l [] ''Noun'' None offset (offset + int i) (offset + int i)]]
                           else bindex1[0 := bindex1 ! 0 @ l_pred])
            in if i < length bindex2 then Inr (bindex2[i := bindex2 ! i @ r_pred])
               else Inl IndexError)
         else Inr bindex1)"

fun lr_lookup_loop ::
  "pystr \<Rightarrow> lemmatizer \<Rightarrow> dict \<Rightarrow> int \<Rightarrow> nat list \<Rightarrow> lattice \<Rightarrow> error + lattice" where
  "lr_lookup_loop eojeol lemmatizer dic offset [] bindex = Inr bindex"
| "lr_lookup_loop eojeol lemmatizer dic offset (i # rest) bindex =
     (case lr_lookup_step eojeol lemmatizer dic offset i bindex of
        Inl err \<Rightarrow> Inl err
      | Inr bindex' \<Rightarrow> lr_lookup_loop eojeol lemmatizer dic offset rest bindex')"

text \<open>\<open>bindex[0] = predicators\<close> raises IndexError for the empty token.\<close>

definition lr_lookup :: "pystr \<Rightarrow> lemmatizer \<Rightarrow> dict \<Rightarrow> int \<Rightarrow> error + lattice" where
  "lr_lookup eojeol lemmatizer dic offset =
     (let n = length eojeol;
          bindex = replicate n [];
          predicators = lemmatize eojeol lemmatizer offset False
      in if n = 0 then Inl IndexError
         else lr_lookup_loop eojeol lemmatizer dic offset [1..<n + 1] (bindex[0 := predicators]))"

section \<open>The overlap remover (remove\_sub)\<close>

text \<open>
  \<open>exist_overlap_l\<close>: \<open>for i in range(b, e)\<close> over the buckets \<open>bindex[i-offset]\<close>, returning at
  the first hit.
\<close>

fun exist_overlap_l_loop :: "int \<Rightarrow> int \<Rightarrow> int \<Rightarrow> lattice \<Rightarrow> int list \<Rightarrow> error + bool" where
  "exist_overlap_l_loop offset b e bindex [] = Inr False"
| "exist_overlap_l_loop offset b e bindex (i # rest) =
     (case py_index bindex (i - offset) of
        Inl err \<Rightarrow> Inl err
      | Inr eojeols \<Rightarrow>
          if list_ex (\<lambda>eojeol. b < ej_m eojeol \<and> ej_b eojeol < e) eojeols then Inr True
          else exist_overlap_l_loop offset b e bindex rest)"

definition exist_overlap_l :: "int \<Rightarrow> int \<Rightarrow> int \<Rightarrow> lattice \<Rightarrow> error + bool" where
  "exist_overlap_l offset b e bindex = exist_overlap_l_loop offset b e bindex [b..e - 1]"

text \<open>The sets \<open>bm_pair\<close> and \<open>me_pair\<close> are lists without repetition.\<close>

type_synonym bm_pairs = "(int \<times> int \<times> tag) list"
type_synonym me_pairs = "(int \<times> int \<times> tag option) list"

definition skip :: "eojeol \<Rightarrow> bm_pairs \<Rightarrow> me_pairs \<Rightarrow> bool" where
  "skip eojeol bm_pair me_pair =
     (list_ex (\<lambda>(b, m, t). ej_w1 eojeol = [] \<and> ej_b eojeol = b \<and> ej_m eojeol = m \<and> ej_t0 eojeol = t)
        bm_pair
      \<or> list_ex (\<lambda>(m, e, t). ej_w1 eojeol \<noteq> [] \<and> ej_m eojeol = m \<and> ej_e eojeol < e \<and> ej_t1 eojeol = t)
          me_pair)"

text \<open>
  The first inner loop of \<open>remove_sub\<close>; \<open>eojeol.w1 and not exist_overlap_l(...)\<close> does not
  call \<open>exist_overlap_l\<close> for a record without right part.
\<close>

fun collect_pairs ::
  "int \<Rightarrow> lattice \<Rightarrow> eojeol list \<Rightarrow> bm_pairs \<times> me_pairs \<Rightarrow> error + bm_pairs \<times> me_pairs" where
  "collect_pairs offset bindex [] pairs = Inr pairs"
| "collect_pairs offset bindex (eojeol # rest) (bm_pair, me_pair) =
     (let r_b = ej_m eojeol; r_e = ej_e eojeol
      in if ej_w1 eojeol = [] then collect_pairs offset bindex rest (bm_pair, me_pair)
         else case exist_overlap_l offset r_b r_e bindex of
                Inl err \<Rightarrow> Inl err
              | Inr overlapped \<Rightarrow>
                  if overlapped then collect_pairs offset bindex rest (bm_pair, me_pair)
                  else collect_pairs offset bindex rest
                         (List.insert (ej_b eojeol, r_b, ej_t0 eojeol) bm_pair,
                          List.insert (r_b, r_e, ej_t1 eojeol) me_pair))"

definition remove_sub_bucket :: "int \<Rightarrow> lattice \<Rightarrow> eojeol list \<Rightarrow> error + eojeol list" where
  "remove_sub_bucket offset bindex eojeols =
     (case collect_pairs offset bindex eojeols ([], []) of
        Inl err \<Rightarrow> Inl err
      | Inr (bm_pair, me_pair) \<Rightarrow> Inr (filter (\<lambda>eojeol. \<not> skip eojeol bm_pair me_pair) eojeols))"

text \<open>
  \<open>for b, eojeols in enumerate(bindex): ...; bindex[b] = eojeols_\<close>: the list is updated in
  place, so bucket \<open>b\<close> is pruned against the buckets already pruned before it.
\<close>

fun remove_sub_loop :: "int \<Rightarrow> nat list \<Rightarrow> lattice \<Rightarrow> error + lattice" where
  "remove_sub_loop offset [] bindex = Inr bindex"
| "remove_sub_loop offset (b # rest) bindex =
     (case remove_sub_bucket offset bindex (bindex ! b) of
        Inl err \<Rightarrow> Inl err
      | Inr eojeols' \<Rightarrow> remove_sub_loop offset rest (bindex[b := eojeols']))"

definition remove_sub :: "lattice \<Rightarrow> int \<Rightarrow> error + lattice" where
  "remove_sub bindex offset = remove_sub_loop offset [0..<length bindex] bindex"

section \<open>The template lookup strategy (template\_lookup)\<close>

text \<open>A raw tagged span \<open>(sub, tag, b, e)\<close> of the string-match pass.\<close>

type_synonym morph = "pystr \<times> tag \<times> nat \<times> nat"

text \<open>\<open>eojeol[b:e]\<close> for bounds that are not negative.\<close>

definition py_slice :: "'a list \<Rightarrow> nat \<Rightarrow> nat \<Rightarrow> 'a list" where
  "py_slice xs b e = take (e - b) (drop b xs)"

text \<open>
  \<open>predicators\<close> is a Python set, whose iteration order is not specified; it is kept as a
  list without repetition, in the order of first insertion.
\<close>

definition set_add :: "'a \<Rightarrow> 'a list \<Rightarrow> 'a list" where
  "set_add x xs = (if x \<in> set xs then xs else xs @ [x])"

definition set_update :: "'a list \<Rightarrow> 'a list \<Rightarrow> 'a list" where
  "set_update xs new = fold set_add new xs"

text \<open>The body of the two loops \<open>for b in range(n): for e in range(b+1, min(b+max_len, n)+1)\<close>.\<close>

definition string_match_step ::
  "pystr \<Rightarrow> lemmatizer \<Rightarrow> dict \<Rightarrow> int \<Rightarrow> nat \<Rightarrow> nat \<Rightarrow> morph list list \<times> eojeol list
     \<Rightarrow> morph list list \<times> eojeol list" where
  "string_match_step eojeol lemmatizer dic offset b e state =
     (let sub = py_slice eojeol b e;
          predicators = set_update (snd state) (lemmatize sub lemmatizer (offset + int b) False);
          bindex = fold (\<lambda>tag bindex. bindex[b := bindex ! b @ [(sub, tag, b, e)]])
                     (get_tag sub dic) (fst state)
      in (bindex, predicators))"

definition string_match ::
  "pystr \<Rightarrow> lemmatizer \<Rightarrow> dict \<Rightarrow> int \<Rightarrow> int \<Rightarrow> morph list list \<times> eojeol list" where
  "string_match eojeol lemmatizer dic max_len offset =
     (let n = length eojeol
      in fold (\<lambda>b state.
                 fold (\<lambda>e state. string_match_step eojeol lemmatizer dic offset b e state)
                   [b + 1..<nat (min (int b + max_len) (int n) + 1)] state)
           [0..<n] (replicate n [], []))"

text \<open>
  The records one raw span \<open>(w0, t0, b, e)\<close> and one template \<open>t\<close> contribute
  (the \<open>if\<close>/\<open>elif\<close> of the second pass).
\<close>

definition template_records ::
  "int \<Rightarrow> nat \<Rightarrow> morph list list \<Rightarrow> morph \<Rightarrow> tag list \<Rightarrow> eojeol list" where
  "template_records offset n bindex morph t =
     (case morph of (w0, t0, b, e) \<Rightarrow>
        if length t = 1 \<and> t0 = t ! 0 then
          [Eojeol w0 [] t0 None (offset + int b) (offset + int e) (offset + int e)]
        else if e < n \<and> length t = 2 \<and> t0 = t ! 0 then
          map (\<lambda>(w1, t1, m, e2). Eojeol w0 w1 t0 (Some t1) (offset + int b) (offset + int m) (offset + int e2))
            (filter (\<lambda>(w1, t1, m, e2). t1 = t ! 1) (bindex ! e))
        else [])"

text \<open>
  \<open>for morphs in bindex: for w0, t0, b, e in morphs: for t in templates: ...
  bindex_[b].append(...)\<close>.
\<close>

definition as_eojeol :: "tag list list \<Rightarrow> int \<Rightarrow> nat \<Rightarrow> morph list list \<Rightarrow> lattice" where
  "as_eojeol templates offset n bindex =
     fold (\<lambda>morphs bindex'.
             fold (\<lambda>morph bindex'.
                     fold (\<lambda>t bindex'.
                             bindex'[fst (snd (snd morph)) :=
                               bindex' ! fst (snd (snd morph)) @ template_records offset n bindex morph t])
                       templates bindex')
               morphs bindex')
       bindex (replicate n [])"

text \<open>\<open>bindex_[word.b-offset].append(word)\<close>, with Python's indexing.\<close>

definition py_append_at :: "'a list list \<Rightarrow> int \<Rightarrow> 'a \<Rightarrow> error + 'a list list" where
  "py_append_at bindex i x =
     (case py_index bindex i of
        Inl err \<Rightarrow> Inl err
      | Inr bucket \<Rightarrow>
          Inr (bindex[(if i < 0 then nat (int (length bindex) + i) else nat i) := bucket @ [x]]))"

fun add_predicators :: "int \<Rightarrow> eojeol list \<Rightarrow> lattice \<Rightarrow> error + lattice" where
  "add_predicators offset [] bindex' = Inr bindex'"
| "add_predicators offset (word # rest) bindex' =
     (case py_append_at bindex' (ej_b word - offset) word of
        Inl err \<Rightarrow> Inl err
      | Inr bindex' \<Rightarrow> add_predicators offset rest bindex')"

definition template_lookup ::
  "pystr \<Rightarrow> lemmatizer \<Rightarrow> dict \<Rightarrow> tag list list \<Rightarrow> int \<Rightarrow> int \<Rightarrow> error + lattice" where
  "template_lookup eojeol lemmatizer dic templates max_len offset =
     (let n = length eojeol;
          matched = string_match eojeol lemmatizer dic max_len offset;
          bindex' = as_eojeol templates offset n (fst matched)
      in case remove_sub bindex' offset of
           Inl err \<Rightarrow> Inl err
         | Inr bindex' \<Rightarrow> add_predicators offset (snd matched) bindex')"

section \<open>The strategy objects (LRLookup, TemplateLookup)\<close>

record LRLookup =
  self_pos_to_words :: dict
  self_max_word_len :: int
  self_formal_text :: bool
  self_lemmatizer :: lemmatizer

record TemplateLookup = LRLookup +
  self_templates :: "tag list list"

text \<open>\<open>max(len(word) for word in words)\<close>, called for a collection that is not empty.\<close>

fun py_max :: "int list \<Rightarrow> int" where
  "py_max [] = 0"
| "py_max (x # xs) = fold max xs x"

text \<open>\<open>_check_max_word_len\<close>: the value of \<open>self.max_word_len\<close> afterwards, or the ValueError.\<close>

definition check_max_word_len :: "dict \<Rightarrow> int \<Rightarrow> error + int" where
  "check_max_word_len pos_to_words max_word_len =
     (if pos_to_words = [] then Inl ValueError
      else Inr (fold (\<lambda>words max_word_len.
                        if words = [] then max_word_len
                        else max (py_max (map (\<lambda>word. int (length word)) words)) max_word_len)
                  (map snd pos_to_words) max_word_len))"

text \<open>
  \<open>_set_lemmatizer\<close>: \<open>self.pos_to_words['Adjective']\<close> raises KeyError on a missing tag.  The
  class \<open>Lemmatizer\<close> is external; its constructor is the parameter \<open>mk\<close>.
\<close>

definition set_lemmatizer ::
  "(pystr list \<Rightarrow> pystr list \<Rightarrow> pystr list \<Rightarrow> bool \<Rightarrow> lemmatizer) \<Rightarrow> dict \<Rightarrow> bool \<Rightarrow> error + lemmatizer" where
  "set_lemmatizer mk pos_to_words formal_text =
     (case map_of pos_to_words ''Adjective'' of
        None \<Rightarrow> Inl KeyError
      | Some adjectives \<Rightarrow>
          (case map_of pos_to_words ''Verb'' of
             None \<Rightarrow> Inl KeyError
           | Some verbs \<Rightarrow>
               (case map_of pos_to_words ''Eomi'' of
                  None \<Rightarrow> Inl KeyError
                | Some eomis \<Rightarrow> Inr (mk adjectives verbs eomis formal_text))))"

text \<open>\<open>LRLookup.__init__(self, pos_to_words, max_word_len=0, lemmatizer=None)\<close>.\<close>

definition LRLookup_init ::
  "(pystr list \<Rightarrow> pystr list \<Rightarrow> pystr list \<Rightarrow> bool \<Rightarrow> lemmatizer) \<Rightarrow> dict \<Rightarrow> int \<Rightarrow> lemmatizer option
     \<Rightarrow> error + LRLookup" where
  "LRLookup_init mk pos_to_words max_word_len lemmatizer =
     (case (case lemmatizer of None \<Rightarrow> set_lemmatizer mk pos_to_words True | Some lem \<Rightarrow> Inr lem) of
        Inl err \<Rightarrow> Inl err
      | Inr lem \<Rightarrow>
          if max_word_len = 0 then
            (case check_max_word_len pos_to_words max_word_len of
               Inl err \<Rightarrow> Inl err
             | Inr derived \<Rightarrow>
                 Inr \<lparr>self_pos_to_words = pos_to_words, self_max_word_len = derived,
                      self_formal_text = True, self_lemmatizer = lem\<rparr>)
          else Inr \<lparr>self_pos_to_words = pos_to_words, self_max_word_len = max_word_len,
                    self_formal_text = True, self_lemmatizer = lem\<rparr>)"

text \<open>
  \<open>_template_format_check\<close>; \<open>sorted(set(templates), key=len)\<close> is stable on the order in which
  the set is iterated, taken here to be the order of first occurrence.
\<close>

definition template_format_check :: "tag list list \<Rightarrow> error + tag list list" where
  "template_format_check templates =
     (if list_ex (\<lambda>t. length t > 2) templates then Inl ValueError
      else Inr (sort_key length (remdups templates)))"

definition default_templates :: "tag list list" where
  "default_templates =
     [[''Noun''], [''Pronoun''], [''Adverb''], [''Exclamation''],
      [''Noun'', ''Josa''], [''Pronoun'', ''Josa''], [''Adverb'', ''Josa'']]"

text \<open>
  \<open>TemplateLookup.__init__(self, pos_to_words, templates=None, formal_text=False,
  lemmatizer=None)\<close>: the constructor of the base class runs with \<open>max_word_len=0\<close>.
\<close>

definition TemplateLookup_init ::
  "(pystr list \<Rightarrow> pystr list \<Rightarrow> pystr list \<Rightarrow> bool \<Rightarrow> lemmatizer) \<Rightarrow> dict \<Rightarrow> tag list list option
     \<Rightarrow> lemmatizer option \<Rightarrow> error + TemplateLookup" where
  "TemplateLookup_init mk pos_to_words templates lemmatizer =
     (case LRLookup_init mk pos_to_words 0 lemmatizer of
        Inl err \<Rightarrow> Inl err
      | Inr base \<Rightarrow>
          (case template_format_check (case templates of None \<Rightarrow> default_templates | Some ts \<Rightarrow> ts) of
             Inl err \<Rightarrow> Inl err
           | Inr ts \<Rightarrow> Inr (LRLookup.extend base \<lparr>self_templates = ts\<rparr>)))"

definition LRLookup_eojeol_lookup :: "'a LRLookup_scheme \<Rightarrow> strategy" where
  "LRLookup_eojeol_lookup self eojeol offset =
     lr_lookup eojeol (self_lemmatizer self) (self_pos_to_words self) offset"

definition TemplateLookup_eojeol_lookup :: "TemplateLookup \<Rightarrow> strategy" where
  "TemplateLookup_eojeol_lookup self eojeol offset =
     template_lookup eojeol (self_lemmatizer self) (self_pos_to_words self) (self_templates self)
       (self_max_word_len self) offset"

section \<open>Sentence lookup\<close>

text \<open>The characters for which \<open>str.isspace\<close> holds, on which \<open>str.split()\<close> splits.\<close>

definition py_isspace :: "nat \<Rightarrow> bool" where
  "py_isspace c =
     ((9 \<le> c \<and> c \<le> 13) \<or> (28 \<le> c \<and> c \<le> 32) \<or> c = 133 \<or> c = 160 \<or> c = 5760
      \<or> (8192 \<le> c \<and> c \<le> 8202) \<or> c = 8232 \<or> c = 8233 \<or> c = 8239 \<or> c = 8287 \<or> c = 12288)"

text \<open>\<open>sentence.split()\<close>: the maximal runs of characters that are not whitespace.\<close>

fun py_split_from :: "pystr \<Rightarrow> pystr \<Rightarrow> pystr list" where
  "py_split_from cur [] = (if cur = [] then [] else [cur])"
| "py_split_from cur (c # cs) =
     (if py_isspace c then (if cur = [] then py_split_from [] cs else cur # py_split_from [] cs)
      else py_split_from (cur @ [c]) cs)"

definition py_split :: "pystr \<Rightarrow> pystr list" where
  "py_split sentence = py_split_from [] sentence"

text \<open>
  Modelled from the spec: \<open>remove_doublespace\<close> is imported from \<open>soynlp.normalizer\<close>, which
  is not among the sources; the spec describes it as whitespace normalization,
  "consecutive multiple spaces collapsed to one".
\<close>

fun remove_doublespace :: "pystr \<Rightarrow> pystr" where
  "remove_doublespace (c # d # cs) =
     (if c = 32 \<and> d = 32 then remove_doublespace (d # cs) else c # remove_doublespace (d # cs))"
| "remove_doublespace cs = cs"

text \<open>
  \<open>for eojeol in sentence.split(): sent += self.eojeol_lookup(eojeol, len(sent))\<close>, the body
  shared by \<open>LRLookup.sentence_lookup\<close> and its subclass.
\<close>

fun sentence_lookup_loop :: "strategy \<Rightarrow> pystr list \<Rightarrow> lattice \<Rightarrow> error + lattice" where
  "sentence_lookup_loop lookup [] sent = Inr sent"
| "sentence_lookup_loop lookup (eojeol # rest) sent =
     (case lookup eojeol (int (length sent)) of
        Inl err \<Rightarrow> Inl err
      | Inr result \<Rightarrow> sentence_lookup_loop lookup rest (sent @ result))"

definition LRLookup_sentence_lookup :: "'a LRLookup_scheme \<Rightarrow> pystr \<Rightarrow> error + lattice" where
  "LRLookup_sentence_lookup self sentence =
     sentence_lookup_loop (LRLookup_eojeol_lookup self) (py_split (remove_doublespace sentence)) []"

text \<open>\<open>LookupBuffer.sentence_lookup\<close>: the same loop through the cache.\<close>

fun LookupBuffer_sentence_loop ::
  "strategy \<Rightarrow> pystr list \<Rightarrow> lattice \<Rightarrow> lookup_buffer \<Rightarrow> (error + lattice) \<times> lookup_buffer" where
  "LookupBuffer_sentence_loop lookup [] sent self = (Inr sent, self)"
| "LookupBuffer_sentence_loop lookup (eojeol # rest) sent self =
     (case LookupBuffer_eojeol_lookup lookup self eojeol (int (length sent)) of
        (Inl err, self') \<Rightarrow> (Inl err, self')
      | (Inr result, self') \<Rightarrow> LookupBuffer_sentence_loop lookup rest (sent @ result) self')"

definition LookupBuffer_sentence_lookup ::
  "strategy \<Rightarrow> lookup_buffer \<Rightarrow> pystr \<Rightarrow> (error + lattice) \<times> lookup_buffer" where
  "LookupBuffer_sentence_lookup lookup self sentence =
     LookupBuffer_sentence_loop lookup (py_split (remove_doublespace sentence)) [] self"

section \<open>The noun-predicator disambiguator (class POSExtractor)\<close>

text \<open>
  \<open>nouns\<close> is a dict from noun to score; \<open>in\<close> tests its keys.  The predicators and the two
  feature collections of the noun extractor are used for membership only.
\<close>

definition is_pos_feature :: "pystr set \<Rightarrow> pystr set \<Rightarrow> pystr set \<Rightarrow> pystr \<Rightarrow> bool" where
  "is_pos_feature predicators pos_features common_features r =
     (r \<in> predicators \<or> r \<in> pos_features \<or> r \<in> common_features)"

definition is_noun_josa ::
  "(pystr \<times> 's) list \<Rightarrow> pystr set \<Rightarrow> pystr set \<Rightarrow> pystr set \<Rightarrow> pystr \<Rightarrow> bool" where
  "is_noun_josa nouns predicators pos_features common_features prefix =
     (if prefix \<in> fst ` set nouns then True
      else list_ex (\<lambda>i. take i prefix \<in> fst ` set nouns
                        \<and> is_pos_feature predicators pos_features common_features (drop i prefix))
             [2..<length prefix])"

text \<open>\<open>range(start, stop, -1)\<close>.\<close>

definition py_range_down :: "int \<Rightarrow> int \<Rightarrow> int list" where
  "py_range_down start stop = map (\<lambda>k. start - int k) [0..<nat (start - stop)]"

definition is_noun_predicator_compound ::
  "pystr set \<Rightarrow> pystr set \<Rightarrow> pystr \<Rightarrow> (pystr \<times> 's) list \<Rightarrow> pystr set \<Rightarrow> bool" where
  "is_noun_predicator_compound pos_features common_features noun nouns predicators =
     (if noun \<in> predicators then True
      else
        (let n = int (length noun)
         in list_ex (\<lambda>i. let prefix = py_slice_to noun i; suffix = py_slice_from noun i
                         in (prefix \<in> predicators \<and> suffix \<in> predicators)
                            \<or> (is_noun_josa nouns predicators pos_features common_features prefix
                                \<and> suffix \<in> predicators))
              (py_range_down (- 1) (- n + 1))))"

text \<open>\<open>_remove_confused_nouns\<close> returns \<open>(nouns_, removals, predicators)\<close>.\<close>

definition remove_confused_nouns ::
  "pystr set \<Rightarrow> pystr set \<Rightarrow> (pystr \<times> 's) list \<Rightarrow> pystr set
     \<Rightarrow> (pystr \<times> 's) list \<times> (pystr \<times> 's) list \<times> pystr set" where
  "remove_confused_nouns pos_features common_features nouns predicators =
     (filter (\<lambda>(noun, score).
                \<not> is_noun_predicator_compound pos_features common_features noun nouns predicators) nouns,
      filter (\<lambda>(noun, score).
                is_noun_predicator_compound pos_features common_features noun nouns predicators) nouns,
      predicators)"

section \<open>Lattices indexed by begin\<close>

text \<open>
  The data model of a lattice: bucket \<open>j\<close> holds the records that begin at \<open>offset + j\<close>.
\<close>

definition begin_indexed :: "int \<Rightarrow> lattice \<Rightarrow> bool" where
  "begin_indexed offset bindex =
     (\<forall>j < length bindex. \<forall>r \<in> set (bindex ! j). ej_b r = offset + int j)"

section \<open>Notions for the analysis of the overlap remover\<close>

text \<open>
  A lattice as the template pass builds it: bucket \<open>j\<close> holds records that begin at
  \<open>offset + j\<close>, have a left part that is not empty, and end inside the token.
\<close>

definition wf_lattice :: "int \<Rightarrow> lattice \<Rightarrow> bool" where
  "wf_lattice offset bindex =
     (\<forall>j < length bindex. \<forall>r \<in> set (bindex ! j).
        ej_b r = offset + int j \<and> ej_b r < ej_m r \<and> ej_e r \<le> offset + int (length bindex))"

text \<open>
  In such a lattice the overlap test of a record only asks which buckets are empty;
  \<open>empties ! j\<close> says that bucket \<open>j\<close> is.
\<close>

definition non_overlapped :: "bool list \<Rightarrow> int \<Rightarrow> eojeol \<Rightarrow> bool" where
  "non_overlapped empties offset r =
     (ej_w1 r \<noteq> [] \<and> (\<forall>i. ej_m r \<le> i \<and> i < ej_e r \<longrightarrow> empties ! nat (i - offset)))"

text \<open>The pruning rule of one bucket, given the set of its non-overlapped two-part records.\<close>

definition skipped :: "eojeol \<Rightarrow> eojeol set \<Rightarrow> bool" where
  "skipped r S =
     ((ej_w1 r = [] \<and> (\<exists>x \<in> S. ej_b x = ej_b r \<and> ej_m x = ej_m r \<and> ej_t0 x = ej_t0 r))
      \<or> (ej_w1 r \<noteq> [] \<and> (\<exists>x \<in> S. ej_m x = ej_m r \<and> ej_e r < ej_e x \<and> ej_t1 x = ej_t1 r)))"

definition prune :: "(eojeol \<Rightarrow> bool) \<Rightarrow> eojeol list \<Rightarrow> eojeol list" where
  "prune N rs = filter (\<lambda>r. \<not> skipped r {x \<in> set rs. N x}) rs"

section \<open>Notions for the analysis of the lookups\<close>

text \<open>The invariant of a Segment Record as the specification states it.\<close>

definition segment_invariant :: "eojeol \<Rightarrow> bool" where
  "segment_invariant r =
     (ej_b r \<le> ej_m r \<and> ej_m r \<le> ej_e r
      \<and> ((ej_w1 r = []) = (ej_t1 r = None)) \<and> ((ej_t1 r = None) = (ej_m r = ej_e r)))"

text \<open>
  The analyses of a lemmatizer have the shape of the invariant: the stem is no longer than
  the word, and the ending is empty iff its tag is absent iff the stem is the whole word.
\<close>

definition lemmatizer_ok :: "lemmatizer \<Rightarrow> bool" where
  "lemmatizer_ok lemmatizer =
     (\<forall>word. \<forall>a \<in> set (lemmatizer word).
        length (fst a) \<le> length word
        \<and> ((fst (snd a) = []) = (snd (snd (snd a)) = None))
        \<and> ((snd (snd (snd a)) = None) = (length (fst a) = length word)))"

text \<open>The raw spans of the string-match pass: bucket \<open>j\<close> holds spans \<open>(eojeol[j:e], tag, j, e)\<close>.\<close>

definition morphs_ok :: "pystr \<Rightarrow> morph list list \<Rightarrow> bool" where
  "morphs_ok eojeol bindex =
     (length bindex = length eojeol
      \<and> (\<forall>j < length bindex. \<forall>x \<in> set (bindex ! j).
            fst (snd (snd x)) = j \<and> j < snd (snd (snd x)) \<and> snd (snd (snd x)) \<le> length eojeol
            \<and> fst x = py_slice eojeol j (snd (snd (snd x)))))"

text \<open>The pending predicators: analyses of substrings, anchored at the begin of the substring.\<close>

definition predicators_ok :: "pystr \<Rightarrow> lemmatizer \<Rightarrow> int \<Rightarrow> eojeol list \<Rightarrow> bool" where
  "predicators_ok eojeol lemmatizer offset predicators =
     (\<forall>r \<in> set predicators. \<exists>b e. b < e \<and> e \<le> length eojeol
        \<and> r \<in> set (lemmatize (py_slice eojeol b e) lemmatizer (offset + int b) False))"

text \<open>A record of bucket \<open>j\<close> of the template pass, for a token of \<open>n\<close> characters.\<close>

definition template_record_ok :: "int \<Rightarrow> nat \<Rightarrow> nat \<Rightarrow> eojeol \<Rightarrow> bool" where
  "template_record_ok offset n j r =
     (ej_b r = offset + int j \<and> ej_b r < ej_m r \<and> ej_m r \<le> ej_e r \<and> ej_e r \<le> offset + int n
      \<and> ((ej_w1 r = []) = (ej_t1 r = None)) \<and> ((ej_t1 r = None) = (ej_m r = ej_e r)))"

text \<open>
  Where a record of \<open>lr_lookup\<close> comes from: the Noun + Josa split at \<open>i\<close>, the one-part Noun
  record of the prefix of length \<open>i\<close>, or an analysis of the lemmatizer for a prefix (the whole
  token included) or a suffix of the token.
\<close>

definition lr_record :: "pystr \<Rightarrow> lemmatizer \<Rightarrow> dict \<Rightarrow> int \<Rightarrow> eojeol \<Rightarrow> bool" where
  "lr_record eojeol lemmatizer dic offset r =
     ((\<exists>i. 1 \<le> i \<and> i \<le> length eojeol \<and> check_tag (take i eojeol) ''Noun'' dic
           \<and> check_tag (drop i eojeol) ''Josa'' dic
           \<and> r = Eojeol (take i eojeol) (drop i eojeol) ''Noun'' (Some ''Josa'') offset
                   (offset + int i) (offset + int (length eojeol)))
      \<or> (\<exists>i. 1 \<le> i \<and> i \<le> length eojeol \<and> check_tag (take i eojeol) ''Noun'' dic
           \<and> r = Eojeol (take i eojeol) [] ''Noun'' None offset (offset + int i) (offset + int i))
      \<or> (\<exists>i. i \<le> length eojeol
           \<and> (r \<in> set (lemmatize (take i eojeol) lemmatizer offset False)
               \<or> r \<in> set (lemmatize (drop i eojeol) lemmatizer (offset + int i) False))))"

text \<open>A lattice grows: same buckets, each with at least the records it had.\<close>

definition grows :: "lattice \<Rightarrow> lattice \<Rightarrow> bool" where
  "grows bindex bindex' =
     (length bindex' = length bindex \<and> (\<forall>j < length bindex. set (bindex ! j) \<subseteq> set (bindex' ! j)))"

section \<open>Concrete inputs of the examples\<close>

definition example_cache :: lookup_buffer where
  "example_cache = \<lparr>buffer = [([1], [[]]), ([2], [[]]), ([3], [[]])],
                     buffer_counter = [([1], 1), ([2], 5), ([3], 5)], lookup_calls = []\<rparr>"

definition example_lemmatizer :: lemmatizer where
  "example_lemmatizer word = (if length word = 1 then [(word, [], ''Verb'', None)] else [])"

definition example_Lemmatizer ::
  "pystr list \<Rightarrow> pystr list \<Rightarrow> pystr list \<Rightarrow> bool \<Rightarrow> lemmatizer" where
  "example_Lemmatizer adjectives verbs eomis formal word = []"

definition example_LRLookup :: LRLookup where
  "example_LRLookup = \<lparr>self_pos_to_words = [], self_max_word_len = 1, self_formal_text = True,
                         self_lemmatizer = example_lemmatizer\<rparr>"

section \<open>The compound rule in the words of the specification\<close>

text \<open>
  The decision rule of the disambiguator as the specification words it, for comparison with
  \<open>is_noun_predicator_compound\<close>.  \<open>inner_min\<close> is the least length of the inner-left part
  of an inner split of the prefix: "every inner split" is \<open>inner_min = 1\<close>.
\<close>

definition decomposable ::
  "nat \<Rightarrow> (pystr \<times> 's) list \<Rightarrow> pystr set \<Rightarrow> pystr set \<Rightarrow> pystr set \<Rightarrow> pystr \<Rightarrow> bool" where
  "decomposable inner_min nouns predicators pos_features common_features prefix =
     (\<exists>i. inner_min \<le> i \<and> i < length prefix \<and> take i prefix \<in> fst ` set nouns
          \<and> (drop i prefix \<in> predicators \<or> drop i prefix \<in> pos_features
               \<or> drop i prefix \<in> common_features))"

definition compound_rule ::
  "nat \<Rightarrow> pystr set \<Rightarrow> pystr set \<Rightarrow> pystr \<Rightarrow> (pystr \<times> 's) list \<Rightarrow> pystr set \<Rightarrow> bool" where
  "compound_rule inner_min pos_features common_features w nouns predicators =
     (w \<in> predicators
      \<or> (\<exists>k. 1 \<le> k \<and> k < length w - 1
              \<and> ((take (length w - k) w \<in> predicators \<and> drop (length w - k) w \<in> predicators)
                  \<or> ((take (length w - k) w \<in> fst ` set nouns
                       \<or> decomposable inner_min nouns predicators pos_features common_features
                            (take (length w - k) w))
                      \<and> drop (length w - k) w \<in> predicators))))"

definition example_dic :: dict where
  "example_dic = [(''Noun'', [[48165], [48165, 51012]]), (''Josa'', [[51012]])]"

definition example_lattice :: lattice where
  "example_lattice =
     [[Eojeol [48165] [] ''Noun'' None 0 1 1,
       Eojeol [48165] [51012] ''Noun'' (Some ''Josa'') 0 1 2,
       Eojeol [48165, 51012] [] ''Noun'' None 0 2 2],
      []]"

definition example_contracting_lemmatizer :: lemmatizer where
  "example_contracting_lemmatizer word =
     (if word = [44032] then [([44032], [50500], ''Verb'', Some ''Eomi'')] else [])"

definition example_noun_dic :: dict where
  "example_noun_dic = [(''Noun'', [[49324, 46988]])]"

definition example_ida_lemmatizer :: lemmatizer where
  "example_ida_lemmatizer word =
     (if word = [51060, 45796] then [([51060], [45796], ''Adjective'', Some ''Eomi'')] else [])"

section \<open>Properties of the cache\<close>




subsection \<open>The invariant of the cache\<close>

lemma LookupBuffer_inv_init:
  "distinct (map fst preanalyzed) \<Longrightarrow> LookupBuffer_inv (LookupBuffer_init (Some preanalyzed))"
  "LookupBuffer_inv (LookupBuffer_init None)"
  by (auto simp: LookupBuffer_inv_def LookupBuffer_init_def comp_def case_prod_unfold image_image)

lemma LookupBuffer_inv_eojeol_lookup:
  "LookupBuffer_inv self \<Longrightarrow> LookupBuffer_inv (snd (LookupBuffer_eojeol_lookup lookup self eojeol offset))"
  by (auto simp: LookupBuffer_inv_def LookupBuffer_eojeol_lookup_def Let_def distinct_update dom_update
      split: sum.splits option.splits) force+

lemma LookupBuffer_inv_compatify_buffer:
  assumes "LookupBuffer_inv self"
  shows "LookupBuffer_inv (LookupBuffer_compatify_buffer self topk)"
proof (cases "int (length (buffer_counter self)) \<le> topk")
  case True
  then show ?thesis using assms by (simp add: LookupBuffer_compatify_buffer_def)
next
  case False
  let ?ys = "sort_key (\<lambda>x. - snd x) (buffer_counter self)"
  let ?c = "py_slice_to ?ys topk"
  let ?A = "fst ` set ?c"
  have dxs: "distinct (map fst (buffer_counter self))" and dbs: "distinct (map fst (buffer self))"
    and keys: "fst ` set (buffer self) = fst ` set (buffer_counter self)"
    using assms by (simp_all add: LookupBuffer_inv_def)
  have d: "distinct (map fst ?ys)"
    using dxs by (simp add: distinct_map inj_on_def)
  have dc: "distinct (map fst ?c)"
    using d by (simp add: py_slice_to_def take_map[symmetric])
  have "set ?c \<subseteq> set ?ys"
    by (auto simp: py_slice_to_def dest: in_set_takeD)
  then have sub: "?A \<subseteq> fst ` set (buffer self)"
    using keys by auto
  have db: "distinct (map fst (filter (\<lambda>x. fst x \<in> ?A) (buffer self)))"
    using dbs by (rule distinct_map_filter)
  have eq: "fst ` set (filter (\<lambda>x. fst x \<in> ?A) (buffer self)) = ?A"
    using sub by force
  show ?thesis
    using False dc db eq
    by (simp add: LookupBuffer_inv_def LookupBuffer_compatify_buffer_def Let_def)
qed

subsection \<open>Eviction\<close>

lemma sorted_take_drop_le:
  assumes "sorted (map f ys)" "x \<in> set (take n ys)" "y \<in> set (drop n ys)"
  shows "f x \<le> f y"
proof -
  have "sorted (map f (take n ys) @ map f (drop n ys))"
    using assms(1) by (metis append_take_drop_id map_append)
  then show ?thesis using assms(2,3) by (auto simp: sorted_append)
qed

lemma length_filter_keys:
  assumes "distinct (map fst xs)" "A \<subseteq> fst ` set xs"
  shows "length (filter (\<lambda>x. fst x \<in> A) xs) = card A"
proof -
  have "length (filter (\<lambda>x. fst x \<in> A) xs) = length (filter (\<lambda>k. k \<in> A) (map fst xs))"
    by (simp add: filter_map comp_def)
  also have "\<dots> = card (set (filter (\<lambda>k. k \<in> A) (map fst xs)))"
    by (rule distinct_card[symmetric]) (rule distinct_filter[OF assms(1)])
  also have "set (filter (\<lambda>k. k \<in> A) (map fst xs)) = A"
    using assms(2) by auto
  finally show ?thesis .
qed

lemma stable_prefix_closed:
  assumes d: "distinct xs" and ij: "i < j" "j < length xs" and eq: "f (xs ! i) = f (xs ! j)"
    and kept: "xs ! j \<in> set (take n (sort_key f xs))"
  shows "xs ! i \<in> set (take n (sort_key f xs))"
proof (rule ccontr)
  let ?ys = "sort_key f xs" and ?v = "f (xs ! j)"
  let ?P = "\<lambda>y. f y = ?v"
  assume nk: "xs ! i \<notin> set (take n ?ys)"
  have "xs ! i \<in> set ?ys" using ij by simp
  then have dr: "xs ! i \<in> set (drop n ?ys)"
    using nk by (metis Un_iff append_take_drop_id set_append)
  have st: "filter ?P (take n ?ys) @ filter ?P (drop n ?ys) = filter ?P xs"
    by (metis append_take_drop_id filter_append sort_key_stable)
  have xs: "xs = take i xs @ xs ! i # drop (Suc i) xs"
    using ij by (simp add: id_take_nth_drop)
  have jB: "xs ! j \<in> set (drop (Suc i) xs)"
  proof -
    have "drop (Suc i) xs ! (j - Suc i) = xs ! j" using ij by simp
    moreover have "j - Suc i < length (drop (Suc i) xs)" using ij by simp
    ultimately show ?thesis by (metis nth_mem)
  qed
  have jA: "xs ! j \<notin> set (take i xs)"
  proof
    assume "xs ! j \<in> set (take i xs)"
    then obtain k where k: "k < length (take i xs)" "take i xs ! k = xs ! j"
      by (auto simp: in_set_conv_nth)
    then have "k < i" "k < length xs" "xs ! k = xs ! j" by auto
    with d ij show False by (simp add: nth_eq_iff_index_eq)
  qed
  have fx: "filter ?P xs = filter ?P (take i xs) @ xs ! i # filter ?P (drop (Suc i) xs)"
    using eq by (subst xs) simp
  have dy: "distinct (filter ?P (take n ?ys) @ filter ?P (drop n ?ys))"
    using d st by simp
  have iQ: "xs ! i \<in> set (filter ?P (drop n ?ys))" using dr eq by simp
  have jP: "xs ! j \<in> set (filter ?P (take n ?ys))" using kept by simp
  have iP: "xs ! i \<notin> set (filter ?P (take n ?ys))" using nk by simp
  from st fx have "filter ?P (take n ?ys) @ filter ?P (drop n ?ys)
      = filter ?P (take i xs) @ xs ! i # filter ?P (drop (Suc i) xs)" by simp
  then obtain us where
    "(filter ?P (take n ?ys) = filter ?P (take i xs) @ us \<and> us @ filter ?P (drop n ?ys) = xs ! i # filter ?P (drop (Suc i) xs))
     \<or> (filter ?P (take n ?ys) @ us = filter ?P (take i xs) \<and> filter ?P (drop n ?ys) = us @ xs ! i # filter ?P (drop (Suc i) xs))"
    by (auto simp: append_eq_append_conv2)
  then show False
  proof
    assume a: "filter ?P (take n ?ys) = filter ?P (take i xs) @ us \<and> us @ filter ?P (drop n ?ys) = xs ! i # filter ?P (drop (Suc i) xs)"
    show False
    proof (cases us)
      case Nil
      with a jP jA show False by auto
    next
      case (Cons u us')
      with a have "u = xs ! i" by simp
      with a Cons iP show False by auto
    qed
  next
    assume a: "filter ?P (take n ?ys) @ us = filter ?P (take i xs) \<and> filter ?P (drop n ?ys) = us @ xs ! i # filter ?P (drop (Suc i) xs)"
    then have "set (filter ?P (take n ?ys)) \<subseteq> set (filter ?P (take i xs))"
      by (metis Un_upper1 set_append)
    with jP jA show False by auto
  qed
qed

text \<open>
  C9.  In a cache state whose two dicts are parallel and hold more than \<open>topk\<close> entries
  (\<open>topk\<close> not negative), \<open>compatify_buffer\<close> leaves exactly \<open>topk\<close> entries in the
  counter and in the buffer, taken from the old ones and with the same keys in both; no
  evicted entry has a higher use count than a kept one; among entries of equal count an
  earlier inserted one is kept before a later one (the sort is stable); and a lookup of an
  evicted token calls the wrapped strategy again (the call is logged) and returns its result.
\<close>

theorem C9_compatify_keeps_top_k:
  assumes inv: "LookupBuffer_inv self" and K: "0 \<le> topk" "topk < int (length (buffer_counter self))"
  defines "self' \<equiv> LookupBuffer_compatify_buffer self topk"
  shows "length (buffer_counter self') = nat topk \<and> length (buffer self') = nat topk
    \<and> set (buffer_counter self') \<subseteq> set (buffer_counter self)
    \<and> set (buffer self') \<subseteq> set (buffer self)
    \<and> fst ` set (buffer self') = fst ` set (buffer_counter self')
    \<and> (\<forall>kept \<in> set (buffer_counter self'). \<forall>evicted \<in> set (buffer_counter self) - set (buffer_counter self').
          snd evicted \<le> snd kept)
    \<and> (\<forall>i j. i < j \<and> j < length (buffer_counter self)
          \<and> snd (buffer_counter self ! i) = snd (buffer_counter self ! j)
          \<and> buffer_counter self ! j \<in> set (buffer_counter self')
          \<longrightarrow> buffer_counter self ! i \<in> set (buffer_counter self'))
    \<and> (\<forall>eojeol \<in> fst ` set (buffer_counter self) - fst ` set (buffer_counter self'). \<forall>offset.
          fst (LookupBuffer_eojeol_lookup lookup self' eojeol offset) = lookup eojeol offset
          \<and> lookup_calls (snd (LookupBuffer_eojeol_lookup lookup self' eojeol offset))
              = lookup_calls self' @ [(eojeol, offset)])"
proof -
  let ?xs = "buffer_counter self"
  let ?ys = "sort_key (\<lambda>x. - snd x) ?xs"
  have c': "buffer_counter self' = take (nat topk) ?ys"
    using K by (simp add: self'_def LookupBuffer_compatify_buffer_def py_slice_to_def Let_def)
  have b': "buffer self' = filter (\<lambda>x. fst x \<in> fst ` set (take (nat topk) ?ys)) (buffer self)"
    using K by (simp add: self'_def LookupBuffer_compatify_buffer_def py_slice_to_def Let_def)
  have l': "lookup_calls self' = lookup_calls self"
    by (simp add: self'_def LookupBuffer_compatify_buffer_def Let_def)
  have dxs: "distinct (map fst ?xs)" and dbs: "distinct (map fst (buffer self))"
    and keys: "fst ` set (buffer self) = fst ` set ?xs"
    using inv by (simp_all add: LookupBuffer_inv_def)
  have dx: "distinct ?xs" using dxs by (simp add: distinct_map)
  have dys: "distinct (map fst ?ys)"
    using dxs by (metis distinct_map distinct_sort set_sort)
  have dtk: "distinct (map fst (take (nat topk) ?ys))"
    using dys by (simp add: take_map[symmetric])
  have sub: "set (take (nat topk) ?ys) \<subseteq> set ?xs"
    using set_take_subset[of "nat topk" ?ys] by simp
  have 1: "length (buffer_counter self') = nat topk" using K c' by simp
  have ksub: "fst ` set (take (nat topk) ?ys) \<subseteq> fst ` set (buffer self)"
    using sub keys by blast
  have "card (fst ` set (take (nat topk) ?ys)) = length (map fst (take (nat topk) ?ys))"
    using distinct_card[OF dtk] by simp
  then have 2: "length (buffer self') = nat topk"
    using K length_filter_keys[OF dbs ksub] b' by simp
  have 3: "set (buffer_counter self') \<subseteq> set ?xs" using c' sub by simp
  have 4: "set (buffer self') \<subseteq> set (buffer self)" using b' by auto
  have 5: "fst ` set (buffer self') = fst ` set (buffer_counter self')"
    using ksub unfolding b' c' by force
  have srt: "sorted (map (\<lambda>x. - snd x) ?ys)" by simp
  have 6: "\<forall>kept \<in> set (buffer_counter self'). \<forall>evicted \<in> set ?xs - set (buffer_counter self').
          snd evicted \<le> snd kept"
  proof (intro ballI)
    fix kept evicted assume k: "kept \<in> set (buffer_counter self')"
      and e: "evicted \<in> set ?xs - set (buffer_counter self')"
    have "evicted \<in> set ?ys" using e by simp
    then have "evicted \<in> set (drop (nat topk) ?ys)"
      using e c' by (metis DiffD2 Un_iff append_take_drop_id set_append)
    from sorted_take_drop_le[OF srt _ this, of kept] k c'
    show "snd evicted \<le> snd kept" by simp
  qed
  have 7: "\<forall>i j. i < j \<and> j < length ?xs \<and> snd (?xs ! i) = snd (?xs ! j)
          \<and> ?xs ! j \<in> set (buffer_counter self') \<longrightarrow> ?xs ! i \<in> set (buffer_counter self')"
  proof (intro allI impI)
    fix i j
    assume a: "i < j \<and> j < length ?xs \<and> snd (?xs ! i) = snd (?xs ! j)
          \<and> ?xs ! j \<in> set (buffer_counter self')"
    then have "?xs ! j \<in> set (take (nat topk) ?ys)" using c' by simp
    with a have "?xs ! i \<in> set (take (nat topk) ?ys)"
      by (intro stable_prefix_closed[OF dx, of i j "\<lambda>x. - snd x" "nat topk"]) simp_all
    then show "?xs ! i \<in> set (buffer_counter self')" using c' by simp
  qed
  have 8: "\<forall>eojeol \<in> fst ` set ?xs - fst ` set (buffer_counter self'). \<forall>offset.
          fst (LookupBuffer_eojeol_lookup lookup self' eojeol offset) = lookup eojeol offset
          \<and> lookup_calls (snd (LookupBuffer_eojeol_lookup lookup self' eojeol offset))
              = lookup_calls self' @ [(eojeol, offset)]"
  proof (intro ballI allI)
    fix eojeol offset assume "eojeol \<in> fst ` set ?xs - fst ` set (buffer_counter self')"
    then have "map_of (buffer_counter self') eojeol = None"
      by (simp add: map_of_eq_None_iff)
    then show "fst (LookupBuffer_eojeol_lookup lookup self' eojeol offset) = lookup eojeol offset
          \<and> lookup_calls (snd (LookupBuffer_eojeol_lookup lookup self' eojeol offset))
              = lookup_calls self' @ [(eojeol, offset)]"
      by (simp add: LookupBuffer_eojeol_lookup_def Let_def split: sum.splits)
  qed
  from 1 2 3 4 5 6 7 8 show ?thesis by blast
qed

theorem C9_compatify_keeps_top_k_witness:
  "LookupBuffer_inv example_cache \<and> (0::int) \<le> 2 \<and> 2 < int (length (buffer_counter example_cache))
   \<and> length (buffer_counter (LookupBuffer_compatify_buffer example_cache 2)) = nat 2
   \<and> length (buffer (LookupBuffer_compatify_buffer example_cache 2)) = nat 2
   \<and> buffer_counter (LookupBuffer_compatify_buffer example_cache 2) = [([2], 5), ([3], 5)]"
proof -
  have inv: "LookupBuffer_inv example_cache"
    by (simp add: LookupBuffer_inv_def example_cache_def)
  have k1: "(0::int) \<le> 2" by simp
  have k2: "2 < int (length (buffer_counter example_cache))" by (simp add: example_cache_def)
  note top = C9_compatify_keeps_top_k [OF inv k1 k2]
  from top have a: "length (buffer_counter (LookupBuffer_compatify_buffer example_cache 2)) = nat 2"
    by (rule conjunct1)
  from top have b: "length (buffer (LookupBuffer_compatify_buffer example_cache 2)) = nat 2"
    by (rule conjunct1[OF conjunct2])
  have c: "buffer_counter (LookupBuffer_compatify_buffer example_cache 2) = [([2], 5), ([3], 5)]"
    by (simp add: LookupBuffer_compatify_buffer_def py_slice_to_def example_cache_def)
  from inv k1 k2 a b c show ?thesis by (intro conjI)
qed

section \<open>The cache and the offsets\<close>

lemmas lr_eval = lr_lookup_def lr_lookup_step_def lemmatize_def is_hangle_def
  character_is_complete_korean_def check_tag_def example_lemmatizer_def Let_def

lemma example_lookup_at_0: "lr_lookup [44032] example_lemmatizer [] 0 = Inr [[Eojeol [44032] [] ''Verb'' None 0 1 1]]"
  by (simp add: lr_eval)

lemma example_lookup_at_1: "lr_lookup [44032] example_lemmatizer [] 1 = Inr [[Eojeol [44032] [] ''Verb'' None 1 2 2]]"
  by (simp add: lr_eval)

text \<open>
  C4.  The cache is keyed by the token alone and a hit returns the stored lattice, whose
  records carry the offset of the call that filled the cache.  With the token looked up at
  offset 0 and then at offset 1, the hit returns the records anchored at 0, while the wrapped
  strategy called at offset 1 returns them anchored at 1; on the sentence of twice the same
  token the cached \<open>sentence_lookup\<close> differs from the one of the strategy itself.
\<close>

theorem C4_cache_hit_ignores_offset:
  "fst (LookupBuffer_eojeol_lookup (LRLookup_eojeol_lookup example_LRLookup)
          (snd (LookupBuffer_eojeol_lookup (LRLookup_eojeol_lookup example_LRLookup)
                  (LookupBuffer_init None) [44032] 0))
          [44032] 1)
     = Inr [[Eojeol [44032] [] ''Verb'' None 0 1 1]]
   \<and> LRLookup_eojeol_lookup example_LRLookup [44032] 1
     = Inr [[Eojeol [44032] [] ''Verb'' None 1 2 2]]
   \<and> fst (LookupBuffer_sentence_lookup (LRLookup_eojeol_lookup example_LRLookup)
          (LookupBuffer_init None) [44032, 32, 44032])
     = Inr [[Eojeol [44032] [] ''Verb'' None 0 1 1], [Eojeol [44032] [] ''Verb'' None 0 1 1]]
   \<and> LRLookup_sentence_lookup example_LRLookup [44032, 32, 44032]
     = Inr [[Eojeol [44032] [] ''Verb'' None 0 1 1], [Eojeol [44032] [] ''Verb'' None 1 2 2]]"
  by (simp add: LookupBuffer_eojeol_lookup_def LookupBuffer_init_def LRLookup_eojeol_lookup_def
      example_LRLookup_def example_lookup_at_0 example_lookup_at_1 LookupBuffer_sentence_lookup_def LRLookup_sentence_lookup_def
      py_split_def py_isspace_def)

section \<open>Construction of a strategy\<close>

lemma py_max_Max: "xs \<noteq> [] \<Longrightarrow> py_max xs = Max (set xs)"
  by (cases xs) (simp_all add: Max.set_eq_fold[symmetric])

lemma Max_insert_max:
  fixes A B :: "int set"
  assumes "finite A" "A \<noteq> {}" "finite B"
  shows "Max (insert (max (Max A) m) B) = Max (insert m (A \<union> B))"
proof (cases "B = {}")
  case True
  then show ?thesis using assms by (simp add: max.commute)
next
  case False
  have "Max (insert (max (Max A) m) B) = max (max (Max A) m) (Max B)"
    using assms False by simp
  moreover have "Max (insert m (A \<union> B)) = max m (max (Max A) (Max B))"
    using assms False by (simp add: Max_Un)
  ultimately show ?thesis by (simp add: max.assoc max.commute max.left_commute)
qed

lemma fold_max_word_len:
  "fold (\<lambda>words max_word_len.
           if words = [] then max_word_len
           else max (py_max (map (\<lambda>word. int (length word)) words)) max_word_len) wss m
     = Max (insert m (\<Union>words \<in> set wss. (\<lambda>word. int (length word)) ` set words))"
proof (induction wss arbitrary: m)
  case Nil
  then show ?case by simp
next
  case (Cons ws wss)
  define B where "B = (\<Union>words \<in> set wss. (\<lambda>word. int (length word)) ` set words)"
  define A where "A = (\<lambda>word. int (length word)) ` set ws"
  have fB: "finite B" by (simp add: B_def)
  show ?case
  proof (cases "ws = []")
    case True
    then show ?thesis using Cons.IH[of m] by simp
  next
    case False
    have A: "finite A" "A \<noteq> {}" using False by (simp_all add: A_def)
    have pm: "py_max (map (\<lambda>word. int (length word)) ws) = Max A"
      using False by (simp add: py_max_Max A_def)
    have "fold (\<lambda>words max_word_len.
           if words = [] then max_word_len
           else max (py_max (map (\<lambda>word. int (length word)) words)) max_word_len) (ws # wss) m
        = Max (insert (max (Max A) m) B)"
      using False Cons.IH[of "max (Max A) m"] pm by (simp add: B_def)
    also have "\<dots> = Max (insert m (A \<union> B))"
      using A fB by (rule Max_insert_max)
    also have "A \<union> B = (\<Union>words \<in> set (ws # wss). (\<lambda>word. int (length word)) ` set words)"
      by (simp add: A_def B_def)
    finally show ?thesis .
  qed
qed

text \<open>
  C7.  With \<open>max_word_len = 0\<close> (not given) and a lemmatizer given, the constructor raises
  ValueError exactly for the empty dictionary; for every other dictionary it returns, with
  \<open>max_word_len\<close> the greatest length of a word of the dictionary, which is 0 when the
  dictionary has no word or only the empty word.  Without a lemmatizer the empty dictionary
  makes \<open>_set_lemmatizer\<close> raise KeyError before the length is derived.
\<close>

theorem C7_max_word_len_derived:
  "LRLookup_init mk pos_to_words 0 (Some lem)
     = (if pos_to_words = [] then Inl ValueError
        else Inr \<lparr>self_pos_to_words = pos_to_words,
                  self_max_word_len =
                    Max (insert 0 (\<Union>words \<in> snd ` set pos_to_words. (\<lambda>word. int (length word)) ` set words)),
                  self_formal_text = True, self_lemmatizer = lem\<rparr>)
   \<and> LRLookup_init mk [] 0 None = Inl KeyError"
  by (simp add: LRLookup_init_def check_max_word_len_def fold_max_word_len set_lemmatizer_def)

theorem C7_max_word_len_derived_witness:
  "LRLookup_init example_Lemmatizer [(''Noun'', [[44032, 44033], [44032]]), (''Josa'', [])] 0
       (Some example_lemmatizer)
     = Inr \<lparr>self_pos_to_words = [(''Noun'', [[44032, 44033], [44032]]), (''Josa'', [])],
            self_max_word_len = 2, self_formal_text = True, self_lemmatizer = example_lemmatizer\<rparr>"
  using C7_max_word_len_derived
    [of example_Lemmatizer "[(''Noun'', [[44032, 44033], [44032]]), (''Josa'', [])]" example_lemmatizer]
  by simp

text \<open>
  A dictionary that is not empty but has no word: the derived length is 0, not positive, and
  the constructor returns.
\<close>

theorem C7_not_positive_accepted:
  "LRLookup_init example_Lemmatizer [(''Noun'', [])] 0 (Some example_lemmatizer)
     = Inr \<lparr>self_pos_to_words = [(''Noun'', [])], self_max_word_len = 0,
            self_formal_text = True, self_lemmatizer = example_lemmatizer\<rparr>
   \<and> \<not> (0 < self_max_word_len \<lparr>self_pos_to_words = [(''Noun'', [])], self_max_word_len = 0,
            self_formal_text = True, self_lemmatizer = example_lemmatizer\<rparr>)"
  by (simp add: LRLookup_init_def check_max_word_len_def)

section \<open>The disambiguator\<close>

lemma set_py_range_down:
  "set (py_range_down (- 1) (- int n + 1)) = {i. \<exists>k. 1 \<le> k \<and> k < n - 1 \<and> i = - int k}"
proof -
  have "set (py_range_down (- 1) (- int n + 1)) = (\<lambda>k. - 1 - int k) ` {0..<n - 2}"
    by (auto simp: py_range_down_def nat_diff_distrib')
  also have "\<dots> = {i. \<exists>k. 1 \<le> k \<and> k < n - 1 \<and> i = - int k}"
  proof (intro set_eqI iffI)
    fix i assume "i \<in> (\<lambda>k. - 1 - int k) ` {0..<n - 2}"
    then obtain k where "k < n - 2" "i = - 1 - int k" by auto
    then have "1 \<le> Suc k \<and> Suc k < n - 1 \<and> i = - int (Suc k)" by auto
    then show "i \<in> {i. \<exists>k. 1 \<le> k \<and> k < n - 1 \<and> i = - int k}" by blast
  next
    fix i assume "i \<in> {i. \<exists>k. 1 \<le> k \<and> k < n - 1 \<and> i = - int k}"
    then obtain k where k: "1 \<le> k" "k < n - 1" "i = - int k" by auto
    then have "k - 1 \<in> {0..<n - 2}" "i = - 1 - int (k - 1)" by auto
    then show "i \<in> (\<lambda>k. - 1 - int k) ` {0..<n - 2}" by blast
  qed
  finally show ?thesis .
qed

lemma py_slice_neg:
  assumes "1 \<le> k" "k < length w - 1"
  shows "py_slice_to w (- int k) = take (length w - k) w"
    and "py_slice_from w (- int k) = drop (length w - k) w"
proof -
  have "nat (int (length w) - int k) = length w - k" by simp
  then show "py_slice_to w (- int k) = take (length w - k) w"
    and "py_slice_from w (- int k) = drop (length w - k) w"
    using assms by (simp_all add: py_slice_to_def py_slice_from_def)
qed

lemma is_noun_josa_iff:
  "is_noun_josa nouns predicators pos_features common_features prefix
     = (prefix \<in> fst ` set nouns \<or> decomposable 2 nouns predicators pos_features common_features prefix)"
  by (auto simp: is_noun_josa_def decomposable_def is_pos_feature_def list_ex_iff)

text \<open>
  C8.  A candidate \<open>w\<close> is marked as compound exactly when it is a predicator, or for some
  suffix of length at least 1 and less than \<open>n - 1\<close> the prefix and the suffix are both
  predicators, or the suffix is a predicator and the prefix is a noun or splits into a noun
  of length at least 2 followed by a predicator or a domain or common feature string.  The
  candidates marked are the removals, the others are kept as nouns.
\<close>

theorem C8_compound_rule:
  "is_noun_predicator_compound pos_features common_features w nouns predicators
     = compound_rule 2 pos_features common_features w nouns predicators
   \<and> (\<forall>score. (w, score) \<in> set nouns \<longrightarrow>
        ((w, score) \<in> set (fst (snd (remove_confused_nouns pos_features common_features nouns predicators)))
           = compound_rule 2 pos_features common_features w nouns predicators)
        \<and> ((w, score) \<in> set (fst (remove_confused_nouns pos_features common_features nouns predicators))
           = (\<not> compound_rule 2 pos_features common_features w nouns predicators)))"
proof -
  have main: "is_noun_predicator_compound pos_features common_features w nouns predicators
     = compound_rule 2 pos_features common_features w nouns predicators"
  proof (cases "w \<in> predicators")
    case True
    then show ?thesis by (simp add: is_noun_predicator_compound_def compound_rule_def)
  next
    case False
    let ?body = "\<lambda>i. (py_slice_to w i \<in> predicators \<and> py_slice_from w i \<in> predicators)
        \<or> (is_noun_josa nouns predicators pos_features common_features (py_slice_to w i)
            \<and> py_slice_from w i \<in> predicators)"
    have "is_noun_predicator_compound pos_features common_features w nouns predicators
        = (\<exists>i \<in> set (py_range_down (- 1) (- int (length w) + 1)). ?body i)"
      using False by (simp add: is_noun_predicator_compound_def Let_def list_ex_iff)
    also have "\<dots> = (\<exists>k. 1 \<le> k \<and> k < length w - 1 \<and> ?body (- int k))"
      unfolding set_py_range_down by blast
    also have "\<dots> = (\<exists>k. 1 \<le> k \<and> k < length w - 1
              \<and> ((take (length w - k) w \<in> predicators \<and> drop (length w - k) w \<in> predicators)
                  \<or> ((take (length w - k) w \<in> fst ` set nouns
                       \<or> decomposable 2 nouns predicators pos_features common_features
                            (take (length w - k) w))
                      \<and> drop (length w - k) w \<in> predicators)))"
    proof -
      have "\<And>k. 1 \<le> k \<Longrightarrow> k < length w - 1 \<Longrightarrow>
          ?body (- int k) = ((take (length w - k) w \<in> predicators \<and> drop (length w - k) w \<in> predicators)
                  \<or> ((take (length w - k) w \<in> fst ` set nouns
                       \<or> decomposable 2 nouns predicators pos_features common_features
                            (take (length w - k) w))
                      \<and> drop (length w - k) w \<in> predicators))"
        by (simp only: py_slice_neg is_noun_josa_iff)
      then show ?thesis by blast
    qed
    finally show ?thesis using False by (simp add: compound_rule_def)
  qed
  show ?thesis
    using main by (auto simp: remove_confused_nouns_def)
qed

theorem C8_compound_rule_witness:
  "([44032, 45208, 45796], 0::nat) \<in> set [([44032, 45208, 45796], 0), ([44032, 45208], 0)]
   \<and> compound_rule 2 {} {} [44032, 45208, 45796] [([44032, 45208, 45796], 0::nat), ([44032, 45208], 0)]
         {[45796]}
   \<and> ([44032, 45208, 45796], 0) \<in> set (fst (snd (remove_confused_nouns {} {}
         [([44032, 45208, 45796], 0::nat), ([44032, 45208], 0)] {[45796]})))"
proof -
  have c: "is_noun_predicator_compound {} {} [44032, 45208, 45796]
             [([44032, 45208, 45796], 0::nat), ([44032, 45208], 0)] {[45796]}"
    by (simp add: is_noun_predicator_compound_def py_range_down_def py_slice_to_def
        py_slice_from_def is_noun_josa_def)
  note rule = C8_compound_rule [of "{}" "{}" "[44032, 45208, 45796]"
      "[([44032, 45208, 45796], 0::nat), ([44032, 45208], 0)]" "{[45796]}"]
  from rule c have r: "compound_rule 2 {} {} [44032, 45208, 45796]
      [([44032, 45208, 45796], 0::nat), ([44032, 45208], 0)] {[45796]}"
    by blast
  have m: "([44032, 45208, 45796], 0::nat) \<in> set [([44032, 45208, 45796], 0), ([44032, 45208], 0)]"
    by simp
  from rule r m have "([44032, 45208, 45796], 0) \<in> set (fst (snd (remove_confused_nouns {} {}
         [([44032, 45208, 45796], 0::nat), ([44032, 45208], 0)] {[45796]})))"
    by blast
  with m r show ?thesis by blast
qed

text \<open>
  With "every inner split", an inner-left noun of one character counts: the prefix (44032,
  45208) splits into the noun (44032) and the feature string (45208), and the suffix (45796)
  is a predicator.  The code starts the inner splits at length 2 and keeps the word as a noun.
\<close>

theorem C8_inner_left_of_length_one:
  "compound_rule 1 {[45208]} {} [44032, 45208, 45796]
     [([44032], 0::nat), ([44032, 45208, 45796], 0)] {[45796]}
   \<and> \<not> is_noun_predicator_compound {[45208]} {} [44032, 45208, 45796]
         [([44032], 0::nat), ([44032, 45208, 45796], 0)] {[45796]}"
proof
  have "decomposable 1 [([44032], 0::nat), ([44032, 45208, 45796], 0)] {[45796]} {[45208]} {}
          [44032, 45208]"
    unfolding decomposable_def by (rule exI[of _ 1]) simp
  then show "compound_rule 1 {[45208]} {} [44032, 45208, 45796]
     [([44032], 0::nat), ([44032, 45208, 45796], 0)] {[45796]}"
    unfolding compound_rule_def by (intro disjI2 exI[of _ 1]) simp
  show "\<not> is_noun_predicator_compound {[45208]} {} [44032, 45208, 45796]
         [([44032], 0::nat), ([44032, 45208, 45796], 0)] {[45796]}"
    by (simp add: is_noun_predicator_compound_def py_range_down_def py_slice_to_def
        py_slice_from_def is_noun_josa_def)
qed

section \<open>The overlap test\<close>

lemma exist_overlap_l_loop_False:
  "(exist_overlap_l_loop offset b e bindex inds = Inr False)
     = (\<forall>i \<in> set inds. \<exists>eojeols. py_index bindex (i - offset) = Inr eojeols
          \<and> (\<forall>r \<in> set eojeols. \<not> (b < ej_m r \<and> ej_b r < e)))"
  by (induction inds) (auto simp: list_ex_iff split: sum.splits)

lemma in_set_concat_nth: "(r \<in> set (concat xss)) = (\<exists>j < length xss. r \<in> set (xss ! j))"
proof
  assume "r \<in> set (concat xss)"
  then obtain ys where "ys \<in> set xss" "r \<in> set ys" by auto
  then show "\<exists>j < length xss. r \<in> set (xss ! j)" by (metis in_set_conv_nth)
next
  assume "\<exists>j < length xss. r \<in> set (xss ! j)"
  then show "r \<in> set (concat xss)" using nth_mem by fastforce
qed

lemma py_index_in_range:
  "0 \<le> i \<Longrightarrow> i < int (length xs) \<Longrightarrow> py_index xs i = Inr (xs ! nat i)"
  by (simp add: py_index_def)

text \<open>
  C1.  The right-hand sub-span \<open>[m, e)\<close> is classified as non-overlapped (its pairs are added
  to \<open>bm_pair\<close> and \<open>me_pair\<close>) exactly when the record has a right part and
  \<open>exist_overlap_l\<close> returns False, which it does exactly when every bucket \<open>i - offset\<close> for
  \<open>i\<close> in \<open>[m, e)\<close> exists and holds no record with begin below \<open>e\<close> and mid above \<open>m\<close>.  In
  a lattice indexed by begin that covers the span this says: no record whose begin lies in
  \<open>[m, e)\<close> has its mid above \<open>m\<close>.  Buckets outside \<open>[m, e)\<close> are not examined.
\<close>

theorem C1_non_overlapped_scans_span_buckets:
  "((exist_overlap_l offset m e bindex = Inr False)
      = (\<forall>i. m \<le> i \<and> i < e \<longrightarrow>
           (\<exists>eojeols. py_index bindex (i - offset) = Inr eojeols
              \<and> (\<forall>r \<in> set eojeols. \<not> (m < ej_m r \<and> ej_b r < e)))))
   \<and> ((collect_pairs offset bindex [x] ([], [])
         = Inr ([(ej_b x, ej_m x, ej_t0 x)], [(ej_m x, ej_e x, ej_t1 x)]))
      = (ej_w1 x \<noteq> [] \<and> exist_overlap_l offset (ej_m x) (ej_e x) bindex = Inr False))
   \<and> (begin_indexed offset bindex
        \<and> offset \<le> m \<and> e \<le> offset + int (length bindex) \<longrightarrow>
      (exist_overlap_l offset m e bindex = Inr False)
        = (\<forall>r \<in> set (concat bindex). m \<le> ej_b r \<and> ej_b r < e \<longrightarrow> \<not> m < ej_m r))"
proof (intro conjI impI)
  show 1: "(exist_overlap_l offset m e bindex = Inr False)
      = (\<forall>i. m \<le> i \<and> i < e \<longrightarrow>
           (\<exists>eojeols. py_index bindex (i - offset) = Inr eojeols
              \<and> (\<forall>r \<in> set eojeols. \<not> (m < ej_m r \<and> ej_b r < e))))"
    for m e
    by (auto simp: exist_overlap_l_def exist_overlap_l_loop_False)
  show "(collect_pairs offset bindex [x] ([], [])
         = Inr ([(ej_b x, ej_m x, ej_t0 x)], [(ej_m x, ej_e x, ej_t1 x)]))
      = (ej_w1 x \<noteq> [] \<and> exist_overlap_l offset (ej_m x) (ej_e x) bindex = Inr False)"
    by (auto simp: Let_def split: sum.splits)
  assume wf0: "begin_indexed offset bindex
        \<and> offset \<le> m \<and> e \<le> offset + int (length bindex)"
  then have wf: "(\<forall>j < length bindex. \<forall>r \<in> set (bindex ! j). ej_b r = offset + int j)
        \<and> offset \<le> m \<and> e \<le> offset + int (length bindex)"
    by (simp add: begin_indexed_def)
  show "(exist_overlap_l offset m e bindex = Inr False)
        = (\<forall>r \<in> set (concat bindex). m \<le> ej_b r \<and> ej_b r < e \<longrightarrow> \<not> m < ej_m r)"
  proof
    assume "exist_overlap_l offset m e bindex = Inr False"
    then have scan: "\<And>i. m \<le> i \<Longrightarrow> i < e \<Longrightarrow>
        \<exists>eojeols. py_index bindex (i - offset) = Inr eojeols
              \<and> (\<forall>r \<in> set eojeols. \<not> (m < ej_m r \<and> ej_b r < e))"
      using 1 by blast
    show "\<forall>r \<in> set (concat bindex). m \<le> ej_b r \<and> ej_b r < e \<longrightarrow> \<not> m < ej_m r"
    proof (intro ballI impI)
      fix r assume r: "r \<in> set (concat bindex)" and be: "m \<le> ej_b r \<and> ej_b r < e"
      from r obtain j where j: "j < length bindex" "r \<in> set (bindex ! j)"
        using in_set_concat_nth[of r bindex] by blast
      with wf have b: "ej_b r = offset + int j" by blast
      have "py_index bindex (ej_b r - offset) = Inr (bindex ! j)"
        using b j by (simp add: py_index_def)
      with scan[of "ej_b r"] be j show "\<not> m < ej_m r" by auto
    qed
  next
    assume no: "\<forall>r \<in> set (concat bindex). m \<le> ej_b r \<and> ej_b r < e \<longrightarrow> \<not> m < ej_m r"
    have "\<exists>eojeols. py_index bindex (i - offset) = Inr eojeols
              \<and> (\<forall>r \<in> set eojeols. \<not> (m < ej_m r \<and> ej_b r < e))" if i: "m \<le> i" "i < e" for i
    proof -
      have rng: "0 \<le> i - offset" "i - offset < int (length bindex)" using i wf by auto
      then have idx: "py_index bindex (i - offset) = Inr (bindex ! nat (i - offset))"
        by (rule py_index_in_range)
      have "\<not> (m < ej_m r \<and> ej_b r < e)" if r: "r \<in> set (bindex ! nat (i - offset))" for r
      proof -
        have j: "nat (i - offset) < length bindex" using rng by simp
        with wf r have "ej_b r = offset + int (nat (i - offset))" by blast
        then have "ej_b r = i" using rng by simp
        moreover have "r \<in> set (concat bindex)" using r j in_set_concat_nth[of r bindex] by blast
        ultimately show ?thesis using no i by auto
      qed
      with idx show ?thesis by blast
    qed
    then show "exist_overlap_l offset m e bindex = Inr False" using 1 by blast
  qed
qed

lemma example_lattice_not_overlapped: "exist_overlap_l 0 1 2 example_lattice = Inr False"
  by (simp add: exist_overlap_l_def example_lattice_def py_index_def)

theorem C1_non_overlapped_scans_span_buckets_witness:
  "begin_indexed 0 example_lattice \<and> (0::int) \<le> 1 \<and> 2 \<le> 0 + int (length example_lattice)
   \<and> exist_overlap_l 0 1 2 example_lattice = Inr False
   \<and> ((exist_overlap_l 0 1 2 example_lattice = Inr False)
        = (\<forall>r \<in> set (concat example_lattice). 1 \<le> ej_b r \<and> ej_b r < 2 \<longrightarrow> \<not> 1 < ej_m r))"
proof -
  have wf: "begin_indexed 0 example_lattice \<and> (0::int) \<le> 1 \<and> 2 \<le> 0 + int (length example_lattice)"
    by (auto simp: begin_indexed_def example_lattice_def less_Suc_eq)
  with C1_non_overlapped_scans_span_buckets [of 0 1 2 example_lattice]
  have "(exist_overlap_l 0 1 2 example_lattice = Inr False)
        = (\<forall>r \<in> set (concat example_lattice). 1 \<le> ej_b r \<and> ej_b r < 2 \<longrightarrow> \<not> 1 < ej_m r)"
    by blast
  with wf example_lattice_not_overlapped show ?thesis by blast
qed

lemma example_string_match:
  "fst (string_match [48165, 51012] example_lemmatizer example_dic 2 0)
     = [[([48165], ''Noun'', 0, 1), ([48165, 51012], ''Noun'', 0, 2)], [([51012], ''Josa'', 1, 2)]]"
  by (simp add: string_match_def string_match_step_def upt_rec py_slice_def get_tag_def
      example_dic_def Let_def)

lemma example_template_lattice:
  "as_eojeol [[''Noun''], [''Noun'', ''Josa'']] 0 2
       (fst (string_match [48165, 51012] example_lemmatizer example_dic 2 0))
     = example_lattice"
  unfolding example_string_match
  by (simp add: as_eojeol_def template_records_def example_lattice_def numeral_2_eq_2)

lemma example_lattice_pruned:
  "remove_sub example_lattice 0
     = Inr [[Eojeol [48165] [51012] ''Noun'' (Some ''Josa'') 0 1 2,
             Eojeol [48165, 51012] [] ''Noun'' None 0 2 2], []]"
  by (simp add: remove_sub_def upt_rec remove_sub_bucket_def example_lattice_def exist_overlap_l_def
      py_index_def skip_def Let_def)

text \<open>
  The token (48165, 51012) with the nouns (48165) and (48165, 51012), the particle (51012)
  and the templates (Noun) and (Noun, Josa): the lattice before pruning is
  \<open>example_lattice\<close>.  The right part \<open>[1, 2)\<close> of the two-part record is classified as
  non-overlapped, and the one-part record with the same begin and mid is pruned, although
  the one-part record of the whole token, in bucket 0, has begin 0 below 2 and mid 2 above 1.
\<close>

theorem C1_record_of_earlier_bucket_not_seen:
  "as_eojeol [[''Noun''], [''Noun'', ''Josa'']] 0 2
       (fst (string_match [48165, 51012] example_lemmatizer example_dic 2 0))
     = example_lattice
   \<and> exist_overlap_l 0 1 2 example_lattice = Inr False
   \<and> remove_sub example_lattice 0
       = Inr [[Eojeol [48165] [51012] ''Noun'' (Some ''Josa'') 0 1 2,
               Eojeol [48165, 51012] [] ''Noun'' None 0 2 2], []]
   \<and> Eojeol [48165, 51012] [] ''Noun'' None 0 2 2 \<in> set (example_lattice ! 0)
   \<and> Eojeol [48165, 51012] [] ''Noun'' None 0 2 2 \<noteq> Eojeol [48165] [51012] ''Noun'' (Some ''Josa'') 0 1 2
   \<and> ej_b (Eojeol [48165, 51012] [] ''Noun'' None 0 2 2) < 2
   \<and> 1 < ej_m (Eojeol [48165, 51012] [] ''Noun'' None 0 2 2)"
proof -
  have d: "Eojeol [48165, 51012] [] ''Noun'' None 0 2 2 \<in> set (example_lattice ! 0)"
    by (simp add: example_lattice_def)
  from example_template_lattice example_lattice_pruned d example_lattice_not_overlapped
  show ?thesis by simp
qed

section \<open>Offsets of a sentence lookup\<close>

lemma lr_lookup_step_length:
  "lr_lookup_step eojeol lemmatizer dic offset i bindex = Inr bindex' \<Longrightarrow>
     length bindex' = length bindex"
  by (auto simp: lr_lookup_step_def Let_def split: if_splits)

lemma lr_lookup_loop_length:
  "lr_lookup_loop eojeol lemmatizer dic offset inds bindex = Inr bindex' \<Longrightarrow>
     length bindex' = length bindex"
proof (induction inds arbitrary: bindex)
  case Nil
  then show ?case by simp
next
  case (Cons i inds)
  then show ?case
    by (auto split: sum.splits dest: lr_lookup_step_length)
qed

lemma lr_lookup_length:
  "lr_lookup eojeol lemmatizer dic offset = Inr bindex \<Longrightarrow> length bindex = length eojeol"
  by (auto simp: lr_lookup_def Let_def split: if_splits dest: lr_lookup_loop_length)













section \<open>The overlap remover on a well-formed lattice\<close>

lemma exist_overlap_l_loop_in_range:
  "\<forall>i \<in> set inds. offset \<le> i \<and> i < offset + int (length bindex) \<Longrightarrow>
     exist_overlap_l_loop offset b e bindex inds
       = Inr (\<exists>i \<in> set inds. \<exists>r \<in> set (bindex ! nat (i - offset)). b < ej_m r \<and> ej_b r < e)"
  by (induction inds) (auto simp: py_index_def list_ex_iff)

lemma exist_overlap_l_wf:
  assumes wf: "wf_lattice offset bindex" and m: "offset \<le> m"
    and e: "e \<le> offset + int (length bindex)"
  shows "exist_overlap_l offset m e bindex
           = Inr (\<exists>i. m \<le> i \<and> i < e \<and> bindex ! nat (i - offset) \<noteq> [])"
proof -
  have rng: "\<forall>i \<in> set [m..e - 1]. offset \<le> i \<and> i < offset + int (length bindex)"
    using m e by auto
  have "(\<exists>r \<in> set (bindex ! nat (i - offset)). m < ej_m r \<and> ej_b r < e)
          = (bindex ! nat (i - offset) \<noteq> [])" if i: "m \<le> i" "i < e" for i
  proof -
    have j: "nat (i - offset) < length bindex" using i m e by auto
    have "m < ej_m r \<and> ej_b r < e" if "r \<in> set (bindex ! nat (i - offset))" for r
    proof -
      from wf j that have "ej_b r = offset + int (nat (i - offset)) \<and> ej_b r < ej_m r"
        unfolding wf_lattice_def by blast
      moreover have "int (nat (i - offset)) = i - offset" using i m by simp
      ultimately show ?thesis using i by simp
    qed
    then show ?thesis by (cases "bindex ! nat (i - offset)") auto
  qed
  then have "(\<exists>i \<in> set [m..e - 1]. \<exists>r \<in> set (bindex ! nat (i - offset)). m < ej_m r \<and> ej_b r < e)
      = (\<exists>i. m \<le> i \<and> i < e \<and> bindex ! nat (i - offset) \<noteq> [])"
    by auto
  with exist_overlap_l_loop_in_range[OF rng, of m e] show ?thesis
    by (simp add: exist_overlap_l_def)
qed

lemma non_overlapped_wf:
  assumes "offset \<le> ej_m r" "ej_e r \<le> offset + int (length bindex)"
  shows "non_overlapped (map (\<lambda>bucket. bucket = []) bindex) offset r
     = (ej_w1 r \<noteq> [] \<and> \<not> (\<exists>i. ej_m r \<le> i \<and> i < ej_e r \<and> bindex ! nat (i - offset) \<noteq> []))"
proof -
  have "(map (\<lambda>bucket. bucket = []) bindex) ! nat (i - offset) = (bindex ! nat (i - offset) = [])"
    if "ej_m r \<le> i" "i < ej_e r" for i
    using that assms by (intro nth_map) auto
  then show ?thesis unfolding non_overlapped_def by auto
qed

lemma collect_pairs_wf:
  assumes wf: "wf_lattice offset bindex"
  shows "\<forall>r \<in> set rs. offset \<le> ej_m r \<and> ej_e r \<le> offset + int (length bindex) \<Longrightarrow>
    \<exists>bm' me'. collect_pairs offset bindex rs (bm, me) = Inr (bm', me')
      \<and> set bm' = set bm \<union> (\<lambda>x. (ej_b x, ej_m x, ej_t0 x)) `
            {x \<in> set rs. non_overlapped (map (\<lambda>bucket. bucket = []) bindex) offset x}
      \<and> set me' = set me \<union> (\<lambda>x. (ej_m x, ej_e x, ej_t1 x)) `
            {x \<in> set rs. non_overlapped (map (\<lambda>bucket. bucket = []) bindex) offset x}"
proof (induction rs arbitrary: bm me)
  case Nil
  then show ?case by simp
next
  case (Cons r rs)
  let ?N = "non_overlapped (map (\<lambda>bucket. bucket = []) bindex) offset"
  have r: "offset \<le> ej_m r" "ej_e r \<le> offset + int (length bindex)"
    and rs: "\<forall>r \<in> set rs. offset \<le> ej_m r \<and> ej_e r \<le> offset + int (length bindex)"
    using Cons.prems by auto
  have ov: "exist_overlap_l offset (ej_m r) (ej_e r) bindex
      = Inr (\<exists>i. ej_m r \<le> i \<and> i < ej_e r \<and> bindex ! nat (i - offset) \<noteq> [])"
    using wf r by (rule exist_overlap_l_wf)
  have N: "?N r = (ej_w1 r \<noteq> [] \<and> \<not> (\<exists>i. ej_m r \<le> i \<and> i < ej_e r \<and> bindex ! nat (i - offset) \<noteq> []))"
    using r by (rule non_overlapped_wf)
  show ?case
  proof (cases "?N r")
    case True
    with N have w1: "ej_w1 r \<noteq> []"
      and "\<not> (\<exists>i. ej_m r \<le> i \<and> i < ej_e r \<and> bindex ! nat (i - offset) \<noteq> [])"
      by blast+
    with ov have "exist_overlap_l offset (ej_m r) (ej_e r) bindex = Inr False" by simp
    with w1 have step: "collect_pairs offset bindex (r # rs) (bm, me)
        = collect_pairs offset bindex rs
            (List.insert (ej_b r, ej_m r, ej_t0 r) bm, List.insert (ej_m r, ej_e r, ej_t1 r) me)"
      by (simp add: Let_def)
    from Cons.IH[OF rs, of "List.insert (ej_b r, ej_m r, ej_t0 r) bm"
        "List.insert (ej_m r, ej_e r, ej_t1 r) me"]
    obtain bm' me' where
      "collect_pairs offset bindex rs
            (List.insert (ej_b r, ej_m r, ej_t0 r) bm, List.insert (ej_m r, ej_e r, ej_t1 r) me)
         = Inr (bm', me')"
      "set bm' = set (List.insert (ej_b r, ej_m r, ej_t0 r) bm) \<union> (\<lambda>x. (ej_b x, ej_m x, ej_t0 x)) `
            {x \<in> set rs. ?N x}"
      "set me' = set (List.insert (ej_m r, ej_e r, ej_t1 r) me) \<union> (\<lambda>x. (ej_m x, ej_e x, ej_t1 x)) `
            {x \<in> set rs. ?N x}"
      by blast
    with step True show ?thesis by auto
  next
    case False
    have step: "collect_pairs offset bindex (r # rs) (bm, me)
        = collect_pairs offset bindex rs (bm, me)"
    proof (cases "ej_w1 r = []")
      case True
      then show ?thesis by (simp add: Let_def)
    next
      case w1: False
      with False N have "\<exists>i. ej_m r \<le> i \<and> i < ej_e r \<and> bindex ! nat (i - offset) \<noteq> []"
        by blast
      with ov have "exist_overlap_l offset (ej_m r) (ej_e r) bindex = Inr True" by simp
      with w1 show ?thesis by (simp add: Let_def)
    qed
    from Cons.IH[OF rs, of bm me] step False show ?thesis by auto
  qed
qed

lemma skip_iff:
  "skip r bm me
     = ((ej_w1 r = [] \<and> (ej_b r, ej_m r, ej_t0 r) \<in> set bm)
        \<or> (ej_w1 r \<noteq> [] \<and> (\<exists>e. ej_e r < e \<and> (ej_m r, e, ej_t1 r) \<in> set me)))"
  unfolding skip_def list_ex_iff by fastforce

lemma remove_sub_bucket_wf:
  assumes wf: "wf_lattice offset bindex"
    and rs: "\<forall>r \<in> set rs. offset \<le> ej_m r \<and> ej_e r \<le> offset + int (length bindex)"
  shows "remove_sub_bucket offset bindex rs
     = Inr (prune (non_overlapped (map (\<lambda>bucket. bucket = []) bindex) offset) rs)"
proof -
  let ?N = "non_overlapped (map (\<lambda>bucket. bucket = []) bindex) offset"
  from collect_pairs_wf[OF wf rs, of "[]" "[]"]
  obtain bm' me' where c: "collect_pairs offset bindex rs ([], []) = Inr (bm', me')"
    and bm: "set bm' = (\<lambda>x. (ej_b x, ej_m x, ej_t0 x)) ` {x \<in> set rs. ?N x}"
    and me: "set me' = (\<lambda>x. (ej_m x, ej_e x, ej_t1 x)) ` {x \<in> set rs. ?N x}"
    by auto
  have "skip r bm' me' = skipped r {x \<in> set rs. ?N x}" for r
  proof -
    have 1: "((ej_b r, ej_m r, ej_t0 r) \<in> set bm')
        = (\<exists>x \<in> {x \<in> set rs. ?N x}. ej_b x = ej_b r \<and> ej_m x = ej_m r \<and> ej_t0 x = ej_t0 r)"
      unfolding bm by (auto simp: image_iff)
    have 2: "(\<exists>e. ej_e r < e \<and> (ej_m r, e, ej_t1 r) \<in> set me')
        = (\<exists>x \<in> {x \<in> set rs. ?N x}. ej_m x = ej_m r \<and> ej_e r < ej_e x \<and> ej_t1 x = ej_t1 r)"
      unfolding me by (auto simp: image_iff) metis
    show ?thesis unfolding skip_iff skipped_def 1 2 ..
  qed
  then show ?thesis
    by (simp add: remove_sub_bucket_def c prune_def)
qed

lemma prune_subset: "set (prune N rs) \<subseteq> set rs"
  by (auto simp: prune_def)

lemma prune_Nil: "prune N [] = []"
  by (simp add: prune_def)

lemma prune_nonempty:
  assumes rs: "rs \<noteq> []" and N: "\<And>x. N x \<Longrightarrow> ej_w1 x \<noteq> []"
  shows "prune N rs \<noteq> []"
proof (cases "{x \<in> set rs. N x} = {}")
  case True
  have "prune N rs = filter (\<lambda>r. \<not> skipped r {}) rs"
    unfolding prune_def True ..
  then have "prune N rs = rs" by (simp add: skipped_def)
  with rs show ?thesis by simp
next
  case False
  define S where "S = {x \<in> set rs. N x}"
  have fin: "finite (ej_e ` S)" and ne: "ej_e ` S \<noteq> {}"
    using False by (simp_all add: S_def)
  from Max_in[OF fin ne] obtain x where x: "x \<in> S" "ej_e x = Max (ej_e ` S)" by auto
  have top: "ej_e y \<le> ej_e x" if "y \<in> S" for y
    using Max_ge[OF fin, of "ej_e y"] that x by simp
  have w1: "ej_w1 x \<noteq> []" using x N by (simp add: S_def)
  have "\<not> skipped x S"
  proof
    assume "skipped x S"
    then obtain y where "y \<in> S" "ej_e x < ej_e y" using w1 by (auto simp: skipped_def)
    with top[of y] show False by simp
  qed
  moreover have "x \<in> set rs" using x by (simp add: S_def)
  ultimately have "x \<in> set (prune N rs)" by (simp add: prune_def S_def)
  then show ?thesis by auto
qed



lemma wf_lattice_update:
  assumes "wf_lattice offset bindex" "j < length bindex" "set rs \<subseteq> set (bindex ! j)"
  shows "wf_lattice offset (bindex[j := rs])"
  unfolding wf_lattice_def
proof (intro allI impI ballI)
  fix k r assume k: "k < length (bindex[j := rs])" and r: "r \<in> set (bindex[j := rs] ! k)"
  have "r \<in> set (bindex ! k)"
    using assms(2,3) k r by (cases "k = j") auto
  moreover have "k < length bindex" using k by simp
  ultimately have "ej_b r = offset + int k \<and> ej_b r < ej_m r \<and> ej_e r \<le> offset + int (length bindex)"
    using assms(1) unfolding wf_lattice_def by blast
  then show "ej_b r = offset + int k \<and> ej_b r < ej_m r
      \<and> ej_e r \<le> offset + int (length (bindex[j := rs]))"
    by simp
qed

lemma wf_lattice_bucket:
  assumes "wf_lattice offset bindex" "j < length bindex"
  shows "\<forall>r \<in> set (bindex ! j). offset \<le> ej_m r \<and> ej_e r \<le> offset + int (length bindex)"
proof
  fix r assume "r \<in> set (bindex ! j)"
  with assms have "ej_b r = offset + int j \<and> ej_b r < ej_m r \<and> ej_e r \<le> offset + int (length bindex)"
    unfolding wf_lattice_def by blast
  then show "offset \<le> ej_m r \<and> ej_e r \<le> offset + int (length bindex)" by simp
qed

lemma non_overlapped_right_part: "non_overlapped sh offset x \<Longrightarrow> ej_w1 x \<noteq> []"
  by (simp add: non_overlapped_def)

lemma prune_empty_iff: "(prune (non_overlapped sh offset) rs = []) = (rs = [])"
  using prune_nonempty[of rs "non_overlapped sh offset"] non_overlapped_right_part prune_Nil
  by blast

lemma remove_sub_loop_wf:
  "wf_lattice offset bindex \<Longrightarrow> map (\<lambda>bucket. bucket = []) bindex = sh \<Longrightarrow> distinct inds \<Longrightarrow>
   \<forall>j \<in> set inds. j < length bindex \<Longrightarrow>
     \<exists>bindex'. remove_sub_loop offset inds bindex = Inr bindex' \<and> length bindex' = length bindex
       \<and> (\<forall>k < length bindex. bindex' ! k
             = (if k \<in> set inds then prune (non_overlapped sh offset) (bindex ! k) else bindex ! k))"
proof (induction inds arbitrary: bindex)
  case Nil
  then show ?case by simp
next
  case (Cons j inds)
  let ?N = "non_overlapped sh offset"
  let ?p = "prune ?N (bindex ! j)"
  let ?L = "bindex[j := ?p]"
  have j: "j < length bindex" and jn: "j \<notin> set inds" and d: "distinct inds"
    and inds: "\<forall>k \<in> set inds. k < length ?L"
    using Cons.prems by auto
  have b: "remove_sub_bucket offset bindex (bindex ! j) = Inr ?p"
    using remove_sub_bucket_wf[OF Cons.prems(1) wf_lattice_bucket[OF Cons.prems(1) j]]
      Cons.prems(2) by simp
  have wf: "wf_lattice offset ?L"
    using Cons.prems(1) j prune_subset by (rule wf_lattice_update)
  have "sh ! j = (bindex ! j = [])" using Cons.prems(2) j by auto
  then have "sh[j := (bindex ! j = [])] = sh" using list_update_id[of sh j] by simp
  then have "sh[j := (?p = [])] = sh" by (simp only: prune_empty_iff)
  then have sh: "map (\<lambda>bucket. bucket = []) ?L = sh"
    using Cons.prems(2) by (simp add: map_update)
  from Cons.IH[OF wf sh d inds] obtain bindex' where
    r: "remove_sub_loop offset inds ?L = Inr bindex'" and l: "length bindex' = length ?L"
    and n: "\<forall>k < length ?L. bindex' ! k = (if k \<in> set inds then prune ?N (?L ! k) else ?L ! k)"
    by blast
  have "remove_sub_loop offset (j # inds) bindex = Inr bindex'" using b r by simp
  moreover have "length bindex' = length bindex" using l by simp
  moreover have "bindex' ! k = (if k \<in> set (j # inds) then prune ?N (bindex ! k) else bindex ! k)"
    if "k < length bindex" for k
    using n that jn j by (cases "k = j") auto
  ultimately show ?case by blast
qed

lemma remove_sub_wf:
  assumes "wf_lattice offset bindex"
  shows "remove_sub bindex offset
     = Inr (map (prune (non_overlapped (map (\<lambda>bucket. bucket = []) bindex) offset)) bindex)"
proof -
  from remove_sub_loop_wf[OF assms refl, of "[0..<length bindex]"]
  obtain bindex' where r: "remove_sub_loop offset [0..<length bindex] bindex = Inr bindex'"
    and l: "length bindex' = length bindex"
    and n: "\<forall>k < length bindex. bindex' ! k
        = prune (non_overlapped (map (\<lambda>bucket. bucket = []) bindex) offset) (bindex ! k)"
    by auto
  have "bindex' = map (prune (non_overlapped (map (\<lambda>bucket. bucket = []) bindex) offset)) bindex"
    using l n by (intro nth_equalityI) auto
  with r show ?thesis by (simp add: remove_sub_def)
qed



section \<open>The lattice of the template pass\<close>

lemma fold_invariant:
  assumes "P s" and "\<And>x s. x \<in> set xs \<Longrightarrow> P s \<Longrightarrow> P (f x s)"
  shows "P (fold f xs s)"
  using assms by (induction xs arbitrary: s) auto

lemma set_set_update: "set (set_update xs new) = set xs \<union> set new"
  unfolding set_update_def by (induction new arbitrary: xs) (auto simp: set_add_def)

lemma morphs_ok_append:
  assumes ok: "morphs_ok eojeol bindex" and b: "b < e" "e \<le> length eojeol"
  shows "morphs_ok eojeol (bindex[b := bindex ! b @ [(py_slice eojeol b e, tag, b, e)]])"
  unfolding morphs_ok_def
proof (rule conjI)
  show "length (bindex[b := bindex ! b @ [(py_slice eojeol b e, tag, b, e)]]) = length eojeol"
    using ok by (simp add: morphs_ok_def)
  show "\<forall>j < length (bindex[b := bindex ! b @ [(py_slice eojeol b e, tag, b, e)]]).
          \<forall>x \<in> set (bindex[b := bindex ! b @ [(py_slice eojeol b e, tag, b, e)]] ! j).
            fst (snd (snd x)) = j \<and> j < snd (snd (snd x)) \<and> snd (snd (snd x)) \<le> length eojeol
            \<and> fst x = py_slice eojeol j (snd (snd (snd x)))"
  proof (intro allI impI ballI)
    fix j x
    assume j: "j < length (bindex[b := bindex ! b @ [(py_slice eojeol b e, tag, b, e)]])"
      and x: "x \<in> set (bindex[b := bindex ! b @ [(py_slice eojeol b e, tag, b, e)]] ! j)"
    have jl: "j < length bindex" using j by simp
    have "x \<in> set (bindex ! j) \<or> (j = b \<and> x = (py_slice eojeol b e, tag, b, e))"
      using x jl by (cases "j = b") auto
    then show "fst (snd (snd x)) = j \<and> j < snd (snd (snd x)) \<and> snd (snd (snd x)) \<le> length eojeol
              \<and> fst x = py_slice eojeol j (snd (snd (snd x)))"
    proof
      assume "x \<in> set (bindex ! j)"
      with ok jl show ?thesis unfolding morphs_ok_def by blast
    next
      assume "j = b \<and> x = (py_slice eojeol b e, tag, b, e)"
      with b show ?thesis by simp
    qed
  qed
qed

lemma string_match_step_ok:
  assumes ok: "morphs_ok eojeol (fst state)" "predicators_ok eojeol lemmatizer offset (snd state)"
    and b: "b < e" "e \<le> length eojeol"
  shows "morphs_ok eojeol (fst (string_match_step eojeol lemmatizer dic offset b e state))
    \<and> predicators_ok eojeol lemmatizer offset
        (snd (string_match_step eojeol lemmatizer dic offset b e state))"
proof
  have "morphs_ok eojeol
      (fold (\<lambda>tag bindex. bindex[b := bindex ! b @ [(py_slice eojeol b e, tag, b, e)]])
         (get_tag (py_slice eojeol b e) dic) (fst state))"
    using ok(1) by (rule fold_invariant) (rule morphs_ok_append[OF _ b])
  then show "morphs_ok eojeol (fst (string_match_step eojeol lemmatizer dic offset b e state))"
    by (simp add: string_match_step_def Let_def)
  show "predicators_ok eojeol lemmatizer offset
        (snd (string_match_step eojeol lemmatizer dic offset b e state))"
    using ok(2) b
    by (auto simp: string_match_step_def Let_def predicators_ok_def set_set_update)
qed

lemma string_match_ok:
  "morphs_ok eojeol (fst (string_match eojeol lemmatizer dic max_len offset))
   \<and> predicators_ok eojeol lemmatizer offset (snd (string_match eojeol lemmatizer dic max_len offset))"
proof -
  let ?P = "\<lambda>state. morphs_ok eojeol (fst state) \<and> predicators_ok eojeol lemmatizer offset (snd state)"
  let ?n = "length eojeol"
  have init: "?P (replicate ?n [], [])"
    by (simp add: morphs_ok_def predicators_ok_def)
  have inner: "?P (fold (\<lambda>e state. string_match_step eojeol lemmatizer dic offset b e state)
                   [b + 1..<nat (min (int b + max_len) (int ?n) + 1)] state)"
    if "?P state" for b state
    using that
  proof (rule fold_invariant)
    fix e s
    assume e: "e \<in> set [b + 1..<nat (min (int b + max_len) (int ?n) + 1)]" and s: "?P s"
    have "b < e" "e \<le> ?n" using e by auto
    with s show "?P (string_match_step eojeol lemmatizer dic offset b e s)"
      using string_match_step_ok by blast
  qed
  have "?P (fold (\<lambda>b state.
                 fold (\<lambda>e state. string_match_step eojeol lemmatizer dic offset b e state)
                   [b + 1..<nat (min (int b + max_len) (int ?n) + 1)] state)
           [0..<?n] (replicate ?n [], []))"
    using init by (rule fold_invariant) (rule inner)
  then show ?thesis by (simp add: string_match_def Let_def)
qed

lemma length_py_slice: "e \<le> length xs \<Longrightarrow> length (py_slice xs b e) = e - b"
  by (simp add: py_slice_def)

lemma template_records_ok:
  assumes ok: "morphs_ok eojeol bindex" and j: "j < length eojeol" and x: "x \<in> set (bindex ! j)"
    and r: "r \<in> set (template_records offset (length eojeol) bindex x t)"
  shows "template_record_ok offset (length eojeol) j r"
proof -
  obtain w0 t0 b e where xe: "x = (w0, t0, b, e)" by (cases x) auto
  from ok j x xe have be: "b = j" "j < e" "e \<le> length eojeol"
    unfolding morphs_ok_def by fastforce+
  show ?thesis
  proof (cases "length t = 1 \<and> t0 = t ! 0")
    case True
    with r xe have "r = Eojeol w0 [] t0 None (offset + int b) (offset + int e) (offset + int e)"
      by (simp add: template_records_def)
    with be show ?thesis by (simp add: template_record_ok_def)
  next
    case False
    with r xe have en: "e < length eojeol"
      and "r \<in> (\<lambda>(w1, t1, m, e2). Eojeol w0 w1 t0 (Some t1) (offset + int b) (offset + int m) (offset + int e2))
              ` set (filter (\<lambda>(w1, t1, m, e2). t1 = t ! 1) (bindex ! e))"
      by (auto simp: template_records_def split: if_splits)
    then obtain w1 t1 m e2 where y: "(w1, t1, m, e2) \<in> set (bindex ! e)"
      and re: "r = Eojeol w0 w1 t0 (Some t1) (offset + int b) (offset + int m) (offset + int e2)"
      by auto
    from ok en y have me: "m = e" "e < e2" "e2 \<le> length eojeol" "w1 = py_slice eojeol e e2"
      unfolding morphs_ok_def by fastforce+
    then have "length w1 = e2 - e" by (simp add: length_py_slice)
    then have "w1 \<noteq> []" using me by auto
    with re be me show ?thesis by (simp add: template_record_ok_def)
  qed
qed

lemma as_eojeol_ok:
  assumes ok: "morphs_ok eojeol bindex"
  shows "length (as_eojeol templates offset (length eojeol) bindex) = length eojeol
    \<and> (\<forall>j < length eojeol. \<forall>r \<in> set (as_eojeol templates offset (length eojeol) bindex ! j).
          template_record_ok offset (length eojeol) j r)"
proof -
  let ?n = "length eojeol"
  let ?J = "\<lambda>L. length L = ?n \<and> (\<forall>j < ?n. \<forall>r \<in> set (L ! j). template_record_ok offset ?n j r)"
  have upd: "?J (L[b := L ! b @ recs])"
    if "?J L" "\<forall>r \<in> set recs. template_record_ok offset ?n b r" for L b recs
  proof (intro conjI allI impI ballI)
    show "length (L[b := L ! b @ recs]) = ?n" using that by simp
  next
    fix j r assume j: "j < ?n" and r: "r \<in> set (L[b := L ! b @ recs] ! j)"
    have "r \<in> set (L ! j) \<or> (j = b \<and> r \<in> set recs)"
      using r j that(1) by (cases "j = b") auto
    with that j show "template_record_ok offset ?n j r" by blast
  qed
  have init: "?J (replicate ?n [])" by simp
  have len: "length bindex = ?n" using ok by (simp add: morphs_ok_def)
  have "?J (fold (\<lambda>morphs L.
             fold (\<lambda>morph L.
                     fold (\<lambda>t L. L[fst (snd (snd morph)) :=
                               L ! fst (snd (snd morph)) @ template_records offset ?n bindex morph t])
                       templates L)
               morphs L)
       bindex (replicate ?n []))"
    using init
  proof (rule fold_invariant)
    fix morphs L assume m: "morphs \<in> set bindex" and L: "?J L"
    then obtain j where j: "j < ?n" "morphs = bindex ! j"
      using len by (auto simp: in_set_conv_nth)
    show "?J (fold (\<lambda>morph L.
                     fold (\<lambda>t L. L[fst (snd (snd morph)) :=
                               L ! fst (snd (snd morph)) @ template_records offset ?n bindex morph t])
                       templates L)
               morphs L)"
      using L
    proof (rule fold_invariant)
      fix x L assume x: "x \<in> set morphs" and L: "?J L"
      have xb: "fst (snd (snd x)) = j"
        using ok j x len unfolding morphs_ok_def by fastforce
      show "?J (fold (\<lambda>t L. L[fst (snd (snd x)) :=
                               L ! fst (snd (snd x)) @ template_records offset ?n bindex x t])
                       templates L)"
        using L
      proof (rule fold_invariant)
        fix t L assume L: "?J L"
        have "\<forall>r \<in> set (template_records offset ?n bindex x t). template_record_ok offset ?n j r"
          using template_records_ok[OF ok j(1)] x j(2) by blast
        with L show "?J (L[fst (snd (snd x)) :=
                 L ! fst (snd (snd x)) @ template_records offset ?n bindex x t])"
          unfolding xb by (rule upd)
      qed
    qed
  qed
  then show ?thesis by (simp add: as_eojeol_def)
qed

lemma as_eojeol_wf:
  assumes "morphs_ok eojeol bindex"
  shows "wf_lattice offset (as_eojeol templates offset (length eojeol) bindex)"
  unfolding wf_lattice_def
proof (intro allI impI ballI)
  fix j r
  assume j: "j < length (as_eojeol templates offset (length eojeol) bindex)"
    and r: "r \<in> set (as_eojeol templates offset (length eojeol) bindex ! j)"
  note ok = as_eojeol_ok[OF assms, of templates offset]
  from ok j r have "template_record_ok offset (length eojeol) j r" by simp
  then show "ej_b r = offset + int j \<and> ej_b r < ej_m r
      \<and> ej_e r \<le> offset + int (length (as_eojeol templates offset (length eojeol) bindex))"
    using ok by (simp add: template_record_ok_def)
qed

lemma remove_sub_subset:
  assumes "wf_lattice offset bindex"
  shows "\<exists>pruned. remove_sub bindex offset = Inr pruned \<and> length pruned = length bindex
    \<and> set (concat pruned) \<subseteq> set (concat bindex)"
proof -
  let ?N = "non_overlapped (map (\<lambda>bucket. bucket = []) bindex) offset"
  have "set (concat (map (prune ?N) bindex)) \<subseteq> set (concat bindex)"
    using prune_subset[of ?N] by auto
  with remove_sub_wf[OF assms] show ?thesis by simp
qed

lemma set_concat_update:
  "set (concat (xss[k := ys])) \<subseteq> set ys \<union> set (concat xss)"
  using set_update_subset_insert[of xss k ys] by auto

lemma add_predicators_ok:
  "\<forall>r \<in> set preds. 0 \<le> ej_b r - offset \<and> ej_b r - offset < int (length bindex) \<Longrightarrow>
     \<exists>bindex'. add_predicators offset preds bindex = Inr bindex' \<and> length bindex' = length bindex
       \<and> set (concat bindex') \<subseteq> set (concat bindex) \<union> set preds"
proof (induction preds arbitrary: bindex)
  case Nil
  then show ?case by simp
next
  case (Cons word preds)
  let ?k = "nat (ej_b word - offset)"
  let ?L = "bindex[?k := bindex ! ?k @ [word]]"
  have k: "0 \<le> ej_b word - offset" "ej_b word - offset < int (length bindex)"
    using Cons.prems by auto
  then have a: "py_append_at bindex (ej_b word - offset) word = Inr ?L"
    by (simp add: py_append_at_def py_index_def)
  have rest: "\<forall>r \<in> set preds. 0 \<le> ej_b r - offset \<and> ej_b r - offset < int (length ?L)"
    using Cons.prems by simp
  from Cons.IH[OF rest] obtain bindex' where
    r: "add_predicators offset preds ?L = Inr bindex'" and l: "length bindex' = length ?L"
    and s: "set (concat bindex') \<subseteq> set (concat ?L) \<union> set preds"
    by blast
  have "bindex ! ?k \<in> set bindex" using k by simp
  then have "set (bindex ! ?k) \<subseteq> set (concat bindex)" by auto
  with set_concat_update[of bindex ?k "bindex ! ?k @ [word]"]
  have "set (concat ?L) \<subseteq> set (concat bindex) \<union> {word}" by auto
  with s have "set (concat bindex') \<subseteq> set (concat bindex) \<union> set (word # preds)" by auto
  with a r l show ?case by simp
qed

lemma lemmatize_begin: "r \<in> set (lemmatize word lemmatizer offset ensure_hangle) \<Longrightarrow> ej_b r = offset"
  by (auto simp: lemmatize_def split: if_splits)

lemma template_lookup_records:
  "\<exists>bindex. template_lookup eojeol lemmatizer dic templates max_len offset = Inr bindex
     \<and> length bindex = length eojeol
     \<and> (\<forall>r \<in> set (concat bindex).
           (\<exists>j < length eojeol. template_record_ok offset (length eojeol) j r)
           \<or> (\<exists>b e. b < e \<and> e \<le> length eojeol
                 \<and> r \<in> set (lemmatize (py_slice eojeol b e) lemmatizer (offset + int b) False)))"
proof -
  let ?n = "length eojeol"
  let ?m = "string_match eojeol lemmatizer dic max_len offset"
  let ?L = "as_eojeol templates offset ?n (fst ?m)"
  have mo: "morphs_ok eojeol (fst ?m)" and po: "predicators_ok eojeol lemmatizer offset (snd ?m)"
    using string_match_ok by blast+
  note ok = as_eojeol_ok[OF mo, of templates offset]
  from remove_sub_subset[OF as_eojeol_wf[OF mo, of offset templates]]
  obtain pruned where p: "remove_sub ?L offset = Inr pruned" and pl: "length pruned = ?n"
    and ps: "set (concat pruned) \<subseteq> set (concat ?L)"
    using ok by auto
  have rng: "\<forall>r \<in> set (snd ?m). 0 \<le> ej_b r - offset \<and> ej_b r - offset < int (length pruned)"
  proof
    fix r assume "r \<in> set (snd ?m)"
    with po obtain b e where "b < e" "e \<le> ?n"
      "r \<in> set (lemmatize (py_slice eojeol b e) lemmatizer (offset + int b) False)"
      unfolding predicators_ok_def by blast
    then show "0 \<le> ej_b r - offset \<and> ej_b r - offset < int (length pruned)"
      using pl by (auto dest: lemmatize_begin)
  qed
  from add_predicators_ok[OF rng] obtain bindex where
    a: "add_predicators offset (snd ?m) pruned = Inr bindex" and l: "length bindex = ?n"
    and s: "set (concat bindex) \<subseteq> set (concat pruned) \<union> set (snd ?m)"
    using pl by auto
  have t: "template_lookup eojeol lemmatizer dic templates max_len offset = Inr bindex"
    using p a by (simp add: template_lookup_def Let_def)
  have "(\<exists>j < ?n. template_record_ok offset ?n j r)
           \<or> (\<exists>b e. b < e \<and> e \<le> ?n
                 \<and> r \<in> set (lemmatize (py_slice eojeol b e) lemmatizer (offset + int b) False))"
    if "r \<in> set (concat bindex)" for r
  proof -
    from that s ps have "r \<in> set (concat ?L) \<or> r \<in> set (snd ?m)" by auto
    then show ?thesis
    proof
      assume "r \<in> set (concat ?L)"
      then obtain j where "j < length ?L" "r \<in> set (?L ! j)"
        using in_set_concat_nth[of r ?L] by blast
      with ok show ?thesis by auto
    next
      assume "r \<in> set (snd ?m)"
      with po show ?thesis unfolding predicators_ok_def by blast
    qed
  qed
  with t l show ?thesis by blast
qed




section \<open>The records of the LR lookup\<close>

lemma set_concat_append_at:
  "set (concat (xss[k := xss ! k @ ys])) \<subseteq> set (concat xss) \<union> set ys"
proof (cases "k < length xss")
  case True
  then have "xss ! k \<in> set xss" by simp
  then have "set (xss ! k) \<subseteq> set (concat xss)" by auto
  with set_concat_update[of xss k "xss ! k @ ys"] show ?thesis by auto
next
  case False
  then show ?thesis by (simp add: list_update_beyond)
qed

lemma lr_lookup_step_records:
  assumes step: "lr_lookup_step eojeol lemmatizer dic offset i bindex = Inr bindex'"
    and i: "1 \<le> i" "i \<le> length eojeol"
    and old: "\<forall>r \<in> set (concat bindex). lr_record eojeol lemmatizer dic offset r"
  shows "\<forall>r \<in> set (concat bindex'). lr_record eojeol lemmatizer dic offset r"
proof -
  let ?Q = "lr_record eojeol lemmatizer dic offset"
  let ?l = "take i eojeol" and ?r = "drop i eojeol"
  let ?josa = "Eojeol ?l ?r ''Noun'' (Some ''Josa'') offset (offset + int i) (offset + int (length eojeol))"
  let ?noun = "Eojeol ?l [] ''Noun'' None offset (offset + int i) (offset + int i)"
  let ?lp = "lemmatize ?l lemmatizer offset False"
  let ?rp = "lemmatize ?r lemmatizer (offset + int i) False"
  define bindex1 where "bindex1 = (if check_tag ?l ''Noun'' dic \<and> check_tag ?r ''Josa'' dic
                     then bindex[0 := bindex ! 0 @ [?josa]] else bindex)"
  define bindex2 where "bindex2 = (if check_tag ?l ''Noun'' dic
                           then bindex1[0 := bindex1 ! 0 @ [?noun]]
                           else bindex1[0 := bindex1 ! 0 @ ?lp])"
  have app: "\<forall>r \<in> set (concat (L[k := L ! k @ ys])). ?Q r"
    if "\<forall>r \<in> set (concat L). ?Q r" "\<forall>r \<in> set ys. ?Q r" for L k ys
    using that set_concat_append_at[of L k ys] by blast
  have qj: "check_tag ?l ''Noun'' dic \<and> check_tag ?r ''Josa'' dic \<Longrightarrow> ?Q ?josa"
    unfolding lr_record_def using i by blast
  have qn: "check_tag ?l ''Noun'' dic \<Longrightarrow> ?Q ?noun"
    unfolding lr_record_def using i by blast
  have ql: "\<forall>r \<in> set ?lp. ?Q r" and qr: "\<forall>r \<in> set ?rp. ?Q r"
    unfolding lr_record_def using i by blast+
  have 1: "\<forall>r \<in> set (concat bindex1). ?Q r"
  proof (cases "check_tag ?l ''Noun'' dic \<and> check_tag ?r ''Josa'' dic")
    case True
    with qj have q: "\<forall>r \<in> set [?josa]. ?Q r" by simp
    have "bindex1 = bindex[0 := bindex ! 0 @ [?josa]]"
      unfolding bindex1_def using True by (rule if_P)
    then show ?thesis using app[OF old q, of 0] by (simp only:)
  next
    case False
    have "bindex1 = bindex" unfolding bindex1_def using False by (rule if_not_P)
    then show ?thesis using old by (simp only:)
  qed
  have 2: "\<forall>r \<in> set (concat bindex2). ?Q r"
  proof (cases "check_tag ?l ''Noun'' dic")
    case True
    with qn have q: "\<forall>r \<in> set [?noun]. ?Q r" by simp
    have "bindex2 = bindex1[0 := bindex1 ! 0 @ [?noun]]"
      unfolding bindex2_def using True by (rule if_P)
    then show ?thesis using app[OF 1 q, of 0] by (simp only:)
  next
    case False
    have "bindex2 = bindex1[0 := bindex1 ! 0 @ ?lp]"
      unfolding bindex2_def using False by (rule if_not_P)
    then show ?thesis using app[OF 1 ql, of 0] by (simp only:)
  qed
  have 3: "\<forall>r \<in> set (concat (bindex2[i := bindex2 ! i @ ?rp])). ?Q r"
    using 2 qr by (rule app)
  have "lr_lookup_step eojeol lemmatizer dic offset i bindex
      = (if (check_tag ?l ''Noun'' dic \<or> ?lp \<noteq> []) \<and> ?rp \<noteq> [] then
           (if i < length bindex2 then Inr (bindex2[i := bindex2 ! i @ ?rp]) else Inl IndexError)
         else Inr bindex1)"
    unfolding lr_lookup_step_def Let_def bindex1_def bindex2_def ..
  with step have "bindex' = bindex1 \<or> bindex' = bindex2[i := bindex2 ! i @ ?rp]"
    by (simp split: if_splits)
  with 1 3 show ?thesis by blast
qed

lemma lr_lookup_loop_records:
  "lr_lookup_loop eojeol lemmatizer dic offset inds bindex = Inr bindex' \<Longrightarrow>
   \<forall>i \<in> set inds. 1 \<le> i \<and> i \<le> length eojeol \<Longrightarrow>
   \<forall>r \<in> set (concat bindex). lr_record eojeol lemmatizer dic offset r \<Longrightarrow>
     \<forall>r \<in> set (concat bindex'). lr_record eojeol lemmatizer dic offset r"
proof (induction inds arbitrary: bindex)
  case Nil
  then show ?case by simp
next
  case (Cons i inds)
  from Cons.prems(1) obtain mid where
    s: "lr_lookup_step eojeol lemmatizer dic offset i bindex = Inr mid"
    and l: "lr_lookup_loop eojeol lemmatizer dic offset inds mid = Inr bindex'"
    by (auto split: sum.splits)
  have i: "1 \<le> i" "i \<le> length eojeol" using Cons.prems(2) by simp_all
  have rest: "\<forall>i \<in> set inds. 1 \<le> i \<and> i \<le> length eojeol" using Cons.prems(2) by simp
  have "\<forall>r \<in> set (concat mid). lr_record eojeol lemmatizer dic offset r"
    using s i Cons.prems(3) by (rule lr_lookup_step_records)
  with Cons.IH[OF l rest] show ?case .
qed

lemma lr_lookup_records:
  assumes "lr_lookup eojeol lemmatizer dic offset = Inr bindex"
  shows "\<forall>r \<in> set (concat bindex). lr_record eojeol lemmatizer dic offset r"
proof -
  let ?n = "length eojeol"
  let ?p = "lemmatize eojeol lemmatizer offset False"
  from assms have n: "?n \<noteq> 0"
    and loop: "lr_lookup_loop eojeol lemmatizer dic offset [1..<?n + 1] ((replicate ?n [])[0 := ?p]) = Inr bindex"
    by (auto simp: lr_lookup_def Let_def split: if_splits)
  have "set (concat ((replicate ?n [])[0 := ?p])) \<subseteq> set ?p"
    using set_concat_update[of "replicate ?n []" 0 ?p] by auto
  moreover have "\<forall>r \<in> set ?p. lr_record eojeol lemmatizer dic offset r"
    unfolding lr_record_def
  proof
    fix r assume "r \<in> set ?p"
    then have "?n \<le> ?n \<and> (r \<in> set (lemmatize (take ?n eojeol) lemmatizer offset False)
        \<or> r \<in> set (lemmatize (drop ?n eojeol) lemmatizer (offset + int ?n) False))" by simp
    then show "(\<exists>i. 1 \<le> i \<and> i \<le> length eojeol \<and> check_tag (take i eojeol) ''Noun'' dic
           \<and> check_tag (drop i eojeol) ''Josa'' dic
           \<and> r = Eojeol (take i eojeol) (drop i eojeol) ''Noun'' (Some ''Josa'') offset
                   (offset + int i) (offset + int (length eojeol)))
      \<or> (\<exists>i. 1 \<le> i \<and> i \<le> length eojeol \<and> check_tag (take i eojeol) ''Noun'' dic
           \<and> r = Eojeol (take i eojeol) [] ''Noun'' None offset (offset + int i) (offset + int i))
      \<or> (\<exists>i. i \<le> length eojeol
           \<and> (r \<in> set (lemmatize (take i eojeol) lemmatizer offset False)
               \<or> r \<in> set (lemmatize (drop i eojeol) lemmatizer (offset + int i) False)))"
      by blast
  qed
  ultimately have init: "\<forall>r \<in> set (concat ((replicate ?n [])[0 := ?p])). lr_record eojeol lemmatizer dic offset r"
    by blast
  have rng: "\<forall>i \<in> set [1..<?n + 1]. 1 \<le> i \<and> i \<le> ?n" by auto
  from lr_lookup_loop_records[OF loop rng init] show ?thesis .
qed

lemma lemmatize_invariant:
  assumes "lemmatizer_ok lemmatizer" "r \<in> set (lemmatize word lemmatizer offset ensure_hangle)"
  shows "segment_invariant r"
proof -
  from assms(2) obtain a where a: "a \<in> set (lemmatizer word)"
    and r: "r = Eojeol (fst a) (fst (snd a)) (fst (snd (snd a))) (snd (snd (snd a))) offset
                  (offset + int (length (fst a))) (offset + int (length word))"
    by (auto simp: lemmatize_def split: if_splits)
  from assms(1) a have "length (fst a) \<le> length word
        \<and> ((fst (snd a) = []) = (snd (snd (snd a)) = None))
        \<and> ((snd (snd (snd a)) = None) = (length (fst a) = length word))"
    unfolding lemmatizer_ok_def by blast
  with r show ?thesis by (simp add: segment_invariant_def)
qed

lemma lr_record_invariant:
  assumes ok: "lemmatizer_ok lemmatizer" and josa: "\<not> check_tag [] ''Josa'' dic"
    and r: "lr_record eojeol lemmatizer dic offset r"
  shows "segment_invariant r"
proof -
  from r consider
    (josa) i where "1 \<le> i" "i \<le> length eojeol" "check_tag (drop i eojeol) ''Josa'' dic"
      "r = Eojeol (take i eojeol) (drop i eojeol) ''Noun'' (Some ''Josa'') offset
                   (offset + int i) (offset + int (length eojeol))"
  | (noun) i where "r = Eojeol (take i eojeol) [] ''Noun'' None offset (offset + int i) (offset + int i)"
  | (pred) w off where "r \<in> set (lemmatize w lemmatizer off False)"
    unfolding lr_record_def by blast
  then show ?thesis
  proof cases
    case josa
    from josa(3) \<open>\<not> check_tag [] ''Josa'' dic\<close> have "drop i eojeol \<noteq> []" by auto
    then have "i < length eojeol" by simp
    with josa show ?thesis by (simp add: segment_invariant_def)
  next
    case noun
    then show ?thesis by (simp add: segment_invariant_def)
  next
    case pred
    with ok show ?thesis by (rule lemmatize_invariant)
  qed
qed

lemma template_record_invariant: "template_record_ok offset n j r \<Longrightarrow> segment_invariant r"
  by (simp add: template_record_ok_def segment_invariant_def)

text \<open>
  C2.  Provided every analysis the lemmatizer returns for a word has a stem no longer than
  the word, and an ending that is empty iff its tag is absent iff the stem is the whole
  word: every record of \<open>lemmatize\<close> satisfies the invariant of a Segment Record; so does
  every record of \<open>lr_lookup\<close> when it returns and the empty string is not a Josa of the
  dictionary; and \<open>template_lookup\<close> returns, with records that all satisfy the invariant.
\<close>

theorem C2_segment_invariant:
  assumes "lemmatizer_ok lemmatizer"
  shows "(\<forall>r \<in> set (lemmatize word lemmatizer offset ensure_hangle). segment_invariant r)
    \<and> (\<not> check_tag [] ''Josa'' dic \<longrightarrow>
         (\<forall>bindex. lr_lookup eojeol lemmatizer dic offset = Inr bindex \<longrightarrow>
            (\<forall>r \<in> set (concat bindex). segment_invariant r)))
    \<and> (\<exists>bindex. template_lookup eojeol lemmatizer dic templates max_len offset = Inr bindex
          \<and> (\<forall>r \<in> set (concat bindex). segment_invariant r))"
proof (intro conjI)
  show "\<forall>r \<in> set (lemmatize word lemmatizer offset ensure_hangle). segment_invariant r"
    using lemmatize_invariant[OF assms] by blast
  show "\<not> check_tag [] ''Josa'' dic \<longrightarrow>
         (\<forall>bindex. lr_lookup eojeol lemmatizer dic offset = Inr bindex \<longrightarrow>
            (\<forall>r \<in> set (concat bindex). segment_invariant r))"
  proof (intro impI allI ballI)
    fix bindex r
    assume j: "\<not> check_tag [] ''Josa'' dic"
      and l: "lr_lookup eojeol lemmatizer dic offset = Inr bindex" and r: "r \<in> set (concat bindex)"
    from lr_lookup_records[OF l] r have "lr_record eojeol lemmatizer dic offset r" ..
    with assms j show "segment_invariant r" by (rule lr_record_invariant)
  qed
  from template_lookup_records[of eojeol lemmatizer dic templates max_len offset]
  obtain bindex where t: "template_lookup eojeol lemmatizer dic templates max_len offset = Inr bindex"
    and rec: "\<forall>r \<in> set (concat bindex).
           (\<exists>j < length eojeol. template_record_ok offset (length eojeol) j r)
           \<or> (\<exists>b e. b < e \<and> e \<le> length eojeol
                 \<and> r \<in> set (lemmatize (py_slice eojeol b e) lemmatizer (offset + int b) False))"
    by blast
  have "\<forall>r \<in> set (concat bindex). segment_invariant r"
  proof
    fix r assume "r \<in> set (concat bindex)"
    with rec have "(\<exists>j < length eojeol. template_record_ok offset (length eojeol) j r)
           \<or> (\<exists>b e. b < e \<and> e \<le> length eojeol
                 \<and> r \<in> set (lemmatize (py_slice eojeol b e) lemmatizer (offset + int b) False))" ..
    then show "segment_invariant r"
    proof
      assume "\<exists>j < length eojeol. template_record_ok offset (length eojeol) j r"
      then show ?thesis using template_record_invariant by blast
    next
      assume "\<exists>b e. b < e \<and> e \<le> length eojeol
                 \<and> r \<in> set (lemmatize (py_slice eojeol b e) lemmatizer (offset + int b) False)"
      then show ?thesis using lemmatize_invariant[OF assms] by blast
    qed
  qed
  with t show "\<exists>bindex. template_lookup eojeol lemmatizer dic templates max_len offset = Inr bindex
          \<and> (\<forall>r \<in> set (concat bindex). segment_invariant r)"
    by blast
qed

lemma example_ida_lemmatizer_ok: "lemmatizer_ok example_ida_lemmatizer"
  by (simp add: lemmatizer_ok_def example_ida_lemmatizer_def)

lemma example_ida_lemmatize:
  "lemmatize [51060, 45796] example_ida_lemmatizer 0 False
     = [Eojeol [51060] [45796] ''Adjective'' (Some ''Eomi'') 0 1 2]"
  by (simp add: lemmatize_def is_hangle_def character_is_complete_korean_def
      example_ida_lemmatizer_def)

theorem C2_segment_invariant_witness:
  "lemmatizer_ok example_ida_lemmatizer
   \<and> lemmatize [51060, 45796] example_ida_lemmatizer 0 False
       = [Eojeol [51060] [45796] ''Adjective'' (Some ''Eomi'') 0 1 2]
   \<and> segment_invariant (Eojeol [51060] [45796] ''Adjective'' (Some ''Eomi'') 0 1 2)"
proof -
  from C2_segment_invariant [OF example_ida_lemmatizer_ok, of "[51060, 45796]" 0 False]
  have "\<forall>r \<in> set (lemmatize [51060, 45796] example_ida_lemmatizer 0 False). segment_invariant r"
    by (rule conjunct1)
  then have "segment_invariant (Eojeol [51060] [45796] ''Adjective'' (Some ''Eomi'') 0 1 2)"
    unfolding example_ida_lemmatize by simp
  with example_ida_lemmatizer_ok example_ida_lemmatize show ?thesis by (intro conjI)
qed

text \<open>
  A lemmatizer that undoes a contraction: the one-character word (44032) analysed as the stem
  (44032) and the ending (50500).  The record has a right part and a right tag, and its mid
  equals its end; all three lookups return it.
\<close>

theorem C2_contracted_ending:
  "lemmatize [44032] example_contracting_lemmatizer 0 False
     = [Eojeol [44032] [50500] ''Verb'' (Some ''Eomi'') 0 1 1]
   \<and> lr_lookup [44032] example_contracting_lemmatizer [] 0
     = Inr [[Eojeol [44032] [50500] ''Verb'' (Some ''Eomi'') 0 1 1]]
   \<and> template_lookup [44032] example_contracting_lemmatizer [] [] 1 0
     = Inr [[Eojeol [44032] [50500] ''Verb'' (Some ''Eomi'') 0 1 1]]
   \<and> \<not> segment_invariant (Eojeol [44032] [50500] ''Verb'' (Some ''Eomi'') 0 1 1)
   \<and> ej_w1 (Eojeol [44032] [50500] ''Verb'' (Some ''Eomi'') 0 1 1) \<noteq> []
   \<and> ej_m (Eojeol [44032] [50500] ''Verb'' (Some ''Eomi'') 0 1 1)
     = ej_e (Eojeol [44032] [50500] ''Verb'' (Some ''Eomi'') 0 1 1)"
proof -
  have l: "lemmatize [44032] example_contracting_lemmatizer off False
     = [Eojeol [44032] [50500] ''Verb'' (Some ''Eomi'') off (off + 1) (off + 1)]" for off
    by (simp add: lemmatize_def is_hangle_def character_is_complete_korean_def
        example_contracting_lemmatizer_def)
  have e: "lemmatize [] example_contracting_lemmatizer off False = []" for off
    by (simp add: lemmatize_def is_hangle_def example_contracting_lemmatizer_def)
  have 1: "lr_lookup [44032] example_contracting_lemmatizer [] 0
     = Inr [[Eojeol [44032] [50500] ''Verb'' (Some ''Eomi'') 0 1 1]]"
    by (simp add: lr_lookup_def lr_lookup_step_def l e check_tag_def Let_def)
  have 2: "template_lookup [44032] example_contracting_lemmatizer [] [] 1 0
     = Inr [[Eojeol [44032] [50500] ''Verb'' (Some ''Eomi'') 0 1 1]]"
  proof -
    have m: "string_match [44032] example_contracting_lemmatizer [] 1 0
        = ([[]], [Eojeol [44032] [50500] ''Verb'' (Some ''Eomi'') 0 1 1])"
      by (simp add: string_match_def string_match_step_def py_slice_def l upt_rec
          get_tag_def set_update_def set_add_def Let_def)
    show ?thesis
      by (simp add: template_lookup_def m as_eojeol_def remove_sub_def remove_sub_bucket_def
          py_append_at_def py_index_def Let_def)
  qed
  from l[of 0] 1 2 show ?thesis by (simp add: segment_invariant_def)
qed

section \<open>What the LR lookup finds\<close>

lemma grows_refl: "grows bindex bindex"
  by (simp add: grows_def)

lemma grows_trans: "grows a b \<Longrightarrow> grows b c \<Longrightarrow> grows a c"
  unfolding grows_def by (metis subset_trans)

lemma grows_append_at: "grows bindex (bindex[k := bindex ! k @ ys])"
  unfolding grows_def
proof (intro conjI allI impI)
  show "length (bindex[k := bindex ! k @ ys]) = length bindex" by simp
  fix j assume "j < length bindex"
  then show "set (bindex ! j) \<subseteq> set (bindex[k := bindex ! k @ ys] ! j)"
    by (cases "j = k") auto
qed

lemma grows_nth: "grows a b \<Longrightarrow> j < length a \<Longrightarrow> set (a ! j) \<subseteq> set (b ! j)"
  by (simp add: grows_def)

lemma grows_length: "grows a b \<Longrightarrow> length b = length a"
  by (simp add: grows_def)

lemma lr_lookup_step_effect:
  assumes step: "lr_lookup_step eojeol lemmatizer dic offset i bindex = Inr bindex'"
  shows "grows bindex bindex'"
    and "0 < length bindex \<Longrightarrow> check_tag (take i eojeol) ''Noun'' dic \<Longrightarrow>
         lemmatize (drop i eojeol) lemmatizer (offset + int i) False \<noteq> [] \<Longrightarrow>
           i < length bindex
           \<and> Eojeol (take i eojeol) [] ''Noun'' None offset (offset + int i) (offset + int i)
                \<in> set (bindex' ! 0)
           \<and> set (lemmatize (drop i eojeol) lemmatizer (offset + int i) False) \<subseteq> set (bindex' ! i)"
proof -
  let ?l = "take i eojeol" and ?r = "drop i eojeol"
  let ?josa = "Eojeol ?l ?r ''Noun'' (Some ''Josa'') offset (offset + int i) (offset + int (length eojeol))"
  let ?noun = "Eojeol ?l [] ''Noun'' None offset (offset + int i) (offset + int i)"
  let ?lp = "lemmatize ?l lemmatizer offset False"
  let ?rp = "lemmatize ?r lemmatizer (offset + int i) False"
  define bindex1 where "bindex1 = (if check_tag ?l ''Noun'' dic \<and> check_tag ?r ''Josa'' dic
                     then bindex[0 := bindex ! 0 @ [?josa]] else bindex)"
  define bindex2 where "bindex2 = (if check_tag ?l ''Noun'' dic
                           then bindex1[0 := bindex1 ! 0 @ [?noun]]
                           else bindex1[0 := bindex1 ! 0 @ ?lp])"
  have eq: "lr_lookup_step eojeol lemmatizer dic offset i bindex
      = (if (check_tag ?l ''Noun'' dic \<or> ?lp \<noteq> []) \<and> ?rp \<noteq> [] then
           (if i < length bindex2 then Inr (bindex2[i := bindex2 ! i @ ?rp]) else Inl IndexError)
         else Inr bindex1)"
    unfolding lr_lookup_step_def Let_def bindex1_def bindex2_def ..
  have g1: "grows bindex bindex1"
    unfolding bindex1_def using grows_append_at grows_refl by simp
  have g12: "grows bindex1 bindex2"
    unfolding bindex2_def using grows_append_at by simp
  have g2: "grows bindex bindex2" using g1 g12 by (rule grows_trans)
  have g3: "grows bindex (bindex2[i := bindex2 ! i @ ?rp])"
    using g2 grows_append_at by (rule grows_trans)
  from step eq have cases: "bindex' = bindex1 \<or> bindex' = bindex2[i := bindex2 ! i @ ?rp]"
    by (simp split: if_splits)
  with g1 g3 show "grows bindex bindex'" by auto
  assume pos: "0 < length bindex" and noun: "check_tag ?l ''Noun'' dic" and rp: "?rp \<noteq> []"
  from step eq noun rp have i2: "i < length bindex2"
    and b': "bindex' = bindex2[i := bindex2 ! i @ ?rp]"
    by (simp_all split: if_splits)
  have l1: "length bindex1 = length bindex" and l2: "length bindex2 = length bindex"
    using g1 g2 by (simp_all add: grows_def)
  have "bindex2 = bindex1[0 := bindex1 ! 0 @ [?noun]]"
    unfolding bindex2_def using noun by (rule if_P)
  then have n2: "?noun \<in> set (bindex2 ! 0)" using pos l1 by simp
  have "grows bindex2 bindex'" unfolding b' by (rule grows_append_at)
  from grows_nth[OF this, of 0] n2 pos l2 have a: "?noun \<in> set (bindex' ! 0)" by auto
  have b: "set ?rp \<subseteq> set (bindex' ! i)" unfolding b' using i2 by simp
  from i2 l2 a b show "i < length bindex \<and> ?noun \<in> set (bindex' ! 0) \<and> set ?rp \<subseteq> set (bindex' ! i)"
    by simp
qed

lemma lr_lookup_step_returns:
  assumes "i < length bindex \<or> lemmatize (drop i eojeol) lemmatizer (offset + int i) False = []"
  shows "\<exists>bindex'. lr_lookup_step eojeol lemmatizer dic offset i bindex = Inr bindex'"
  using assms by (auto simp: lr_lookup_step_def Let_def)

lemma lr_lookup_loop_grows:
  "lr_lookup_loop eojeol lemmatizer dic offset inds bindex = Inr bindex' \<Longrightarrow> grows bindex bindex'"
proof (induction inds arbitrary: bindex)
  case Nil
  then show ?case by (simp add: grows_refl)
next
  case (Cons i inds)
  from Cons.prems obtain mid where
    s: "lr_lookup_step eojeol lemmatizer dic offset i bindex = Inr mid"
    and l: "lr_lookup_loop eojeol lemmatizer dic offset inds mid = Inr bindex'"
    by (auto split: sum.splits)
  from lr_lookup_step_effect(1)[OF s] Cons.IH[OF l] show ?case by (rule grows_trans)
qed

lemma lr_lookup_loop_adds:
  "lr_lookup_loop eojeol lemmatizer dic offset inds bindex = Inr bindex' \<Longrightarrow> i \<in> set inds \<Longrightarrow>
   0 < length bindex \<Longrightarrow> check_tag (take i eojeol) ''Noun'' dic \<Longrightarrow>
   lemmatize (drop i eojeol) lemmatizer (offset + int i) False \<noteq> [] \<Longrightarrow>
     i < length bindex
     \<and> Eojeol (take i eojeol) [] ''Noun'' None offset (offset + int i) (offset + int i)
          \<in> set (bindex' ! 0)
     \<and> set (lemmatize (drop i eojeol) lemmatizer (offset + int i) False) \<subseteq> set (bindex' ! i)"
proof (induction inds arbitrary: bindex)
  case Nil
  then show ?case by simp
next
  case (Cons k inds)
  from Cons.prems(1) obtain mid where
    s: "lr_lookup_step eojeol lemmatizer dic offset k bindex = Inr mid"
    and l: "lr_lookup_loop eojeol lemmatizer dic offset inds mid = Inr bindex'"
    by (auto split: sum.splits)
  have gm: "grows bindex mid" using s by (rule lr_lookup_step_effect(1))
  have lm: "length mid = length bindex" using gm by (rule grows_length)
  show ?case
  proof (cases "i = k")
    case True
    from lr_lookup_step_effect(2)[OF s Cons.prems(3)] Cons.prems(4,5) True
    have m: "i < length bindex"
      "Eojeol (take i eojeol) [] ''Noun'' None offset (offset + int i) (offset + int i) \<in> set (mid ! 0)"
      "set (lemmatize (drop i eojeol) lemmatizer (offset + int i) False) \<subseteq> set (mid ! i)"
      by simp_all
    have g: "grows mid bindex'" using l by (rule lr_lookup_loop_grows)
    from grows_nth[OF g, of 0] grows_nth[OF g, of i] m lm Cons.prems(3) show ?thesis by auto
  next
    case False
    with Cons.prems(2) have "i \<in> set inds" by simp
    from Cons.IH[OF l this] Cons.prems(3,4,5) lm show ?thesis by simp
  qed
qed

lemma lr_lookup_loop_returns:
  "length bindex = length eojeol \<Longrightarrow> lemmatizer [] = [] \<Longrightarrow> \<forall>i \<in> set inds. i \<le> length eojeol \<Longrightarrow>
     \<exists>bindex'. lr_lookup_loop eojeol lemmatizer dic offset inds bindex = Inr bindex'"
proof (induction inds arbitrary: bindex)
  case Nil
  then show ?case by simp
next
  case (Cons i inds)
  have "i < length bindex \<or> lemmatize (drop i eojeol) lemmatizer (offset + int i) False = []"
  proof (cases "i < length bindex")
    case True
    then show ?thesis by simp
  next
    case False
    with Cons.prems have "drop i eojeol = []" by simp
    then show ?thesis using Cons.prems(2) by (simp add: lemmatize_def)
  qed
  from lr_lookup_step_returns[OF this] obtain mid where
    s: "lr_lookup_step eojeol lemmatizer dic offset i bindex = Inr mid" by blast
  have "length mid = length eojeol"
    using lr_lookup_step_effect(1)[OF s] Cons.prems(1) by (simp add: grows_def)
  from Cons.IH[OF this Cons.prems(2)] Cons.prems(3) s show ?case by simp
qed

lemma lr_lookup_returns:
  assumes "eojeol \<noteq> []" "lemmatizer [] = []"
  shows "\<exists>bindex. lr_lookup eojeol lemmatizer dic offset = Inr bindex"
proof -
  let ?init = "(replicate (length eojeol) [])[0 := lemmatize eojeol lemmatizer offset False]"
  have r: "\<forall>i \<in> set [1..<length eojeol + 1]. i \<le> length eojeol" by auto
  have len: "length ?init = length eojeol" by simp
  have "\<exists>bindex'. lr_lookup_loop eojeol lemmatizer dic offset [1..<length eojeol + 1] ?init = Inr bindex'"
    using len assms(2) r by (rule lr_lookup_loop_returns)
  then show ?thesis using assms(1) by (simp add: lr_lookup_def Let_def)
qed

lemma lr_lookup_adds:
  assumes l: "lr_lookup eojeol lemmatizer dic offset = Inr bindex"
    and i: "1 \<le> i" "i \<le> length eojeol"
    and noun: "check_tag (take i eojeol) ''Noun'' dic"
    and rp: "lemmatize (drop i eojeol) lemmatizer (offset + int i) False \<noteq> []"
  shows "Eojeol (take i eojeol) [] ''Noun'' None offset (offset + int i) (offset + int i)
          \<in> set (bindex ! 0)
     \<and> set (lemmatize (drop i eojeol) lemmatizer (offset + int i) False) \<subseteq> set (bindex ! i)"
proof -
  let ?n = "length eojeol"
  let ?init = "(replicate ?n [])[0 := lemmatize eojeol lemmatizer offset False]"
  from l have loop: "lr_lookup_loop eojeol lemmatizer dic offset [1..<?n + 1] ?init = Inr bindex"
    by (auto simp: lr_lookup_def Let_def split: if_splits)
  have "i \<in> set [1..<?n + 1]" using i by auto
  moreover have "0 < length ?init" using i by (cases eojeol) simp_all
  ultimately show ?thesis using lr_lookup_loop_adds[OF loop _ _ noun rp] by blast
qed

lemma example_saram_ida_lookup:
  "lr_lookup [49324, 46988, 51060, 45796] example_ida_lemmatizer example_noun_dic 0
     = Inr [[Eojeol [49324, 46988] [] ''Noun'' None 0 2 2], [],
            [Eojeol [51060] [45796] ''Adjective'' (Some ''Eomi'') 2 3 4], []]"
  by (simp add: lr_lookup_def lr_lookup_step_def lemmatize_def is_hangle_def upt_rec
      character_is_complete_korean_def check_tag_def example_ida_lemmatizer_def
      example_noun_dic_def Let_def)

text \<open>
  C5.  For the token (49324, 46988, 51060, 45796), with a dictionary whose Noun set contains
  (49324, 46988) and a lemmatizer that has an analysis for (51060, 45796) and none for the
  empty string, the LR lookup returns a lattice of four buckets; bucket 0 holds the one-part
  Noun record of (49324, 46988) over the first two characters, bucket 2 holds the analyses of
  (51060, 45796) anchored at \<open>offset + 2\<close>; and a record with left text (49324, 46988) and right
  text (51060, 45796) is in the lattice only as the Noun + Josa record, when (51060, 45796)
  is a Josa, or as an analysis the lemmatizer itself returns.
\<close>

theorem C5_noun_and_predicate_are_separate_records:
  assumes noun: "check_tag [49324, 46988] ''Noun'' dic"
    and pred: "lemmatizer [51060, 45796] \<noteq> []"
    and empty: "lemmatizer [] = []"
  shows "\<exists>bindex. lr_lookup [49324, 46988, 51060, 45796] lemmatizer dic offset = Inr bindex
     \<and> length bindex = 4
     \<and> Eojeol [49324, 46988] [] ''Noun'' None offset (offset + 2) (offset + 2) \<in> set (bindex ! 0)
     \<and> lemmatize [51060, 45796] lemmatizer (offset + 2) False \<noteq> []
     \<and> set (lemmatize [51060, 45796] lemmatizer (offset + 2) False) \<subseteq> set (bindex ! 2)
     \<and> (\<forall>r \<in> set (concat bindex). ej_w0 r = [49324, 46988] \<and> ej_w1 r = [51060, 45796] \<longrightarrow>
          (check_tag [51060, 45796] ''Josa'' dic \<and> ej_t1 r = Some ''Josa'')
          \<or> (\<exists>word. (ej_w0 r, ej_w1 r, ej_t0 r, ej_t1 r) \<in> set (lemmatizer word)))"
proof -
  let ?tok = "[49324, 46988, 51060, 45796] :: pystr"
  from lr_lookup_returns[of ?tok lemmatizer dic offset] empty
  obtain bindex where l: "lr_lookup ?tok lemmatizer dic offset = Inr bindex" by auto
  have len: "length bindex = 4" using lr_lookup_length[OF l] by simp
  have rp: "lemmatize [51060, 45796] lemmatizer (offset + 2) False \<noteq> []"
    using pred by (simp add: lemmatize_def is_hangle_def character_is_complete_korean_def)
  have "Eojeol (take 2 ?tok) [] ''Noun'' None offset (offset + int 2) (offset + int 2)
          \<in> set (bindex ! 0)
     \<and> set (lemmatize (drop 2 ?tok) lemmatizer (offset + int 2) False) \<subseteq> set (bindex ! 2)"
  proof (rule lr_lookup_adds[OF l])
    show "1 \<le> (2::nat)" by simp
    show "2 \<le> length ?tok" by simp
    show "check_tag (take 2 ?tok) ''Noun'' dic" using noun by simp
    show "lemmatize (drop 2 ?tok) lemmatizer (offset + int 2) False \<noteq> []" using rp by simp
  qed
  then have adds: "Eojeol [49324, 46988] [] ''Noun'' None offset (offset + 2) (offset + 2) \<in> set (bindex ! 0)"
    "set (lemmatize [51060, 45796] lemmatizer (offset + 2) False) \<subseteq> set (bindex ! 2)"
    by simp_all
  have only: "(check_tag [51060, 45796] ''Josa'' dic \<and> ej_t1 r = Some ''Josa'')
          \<or> (\<exists>word. (ej_w0 r, ej_w1 r, ej_t0 r, ej_t1 r) \<in> set (lemmatizer word))"
    if r: "r \<in> set (concat bindex)" and w: "ej_w0 r = [49324, 46988] \<and> ej_w1 r = [51060, 45796]" for r
  proof -
    from lr_lookup_records[OF l] r have "lr_record ?tok lemmatizer dic offset r" ..
    then consider
      (josa) i where "check_tag (drop i ?tok) ''Josa'' dic"
        "r = Eojeol (take i ?tok) (drop i ?tok) ''Noun'' (Some ''Josa'') offset
                   (offset + int i) (offset + int (length ?tok))"
    | (noun) i where "r = Eojeol (take i ?tok) [] ''Noun'' None offset (offset + int i) (offset + int i)"
    | (pred) word off where "r \<in> set (lemmatize word lemmatizer off False)"
      unfolding lr_record_def by blast
    then show ?thesis
    proof cases
      case josa
      with w have "drop i ?tok = [51060, 45796]" by simp
      with josa show ?thesis by simp
    next
      case noun
      with w show ?thesis by simp
    next
      case pred
      then obtain a where "a \<in> set (lemmatizer word)"
        "r = Eojeol (fst a) (fst (snd a)) (fst (snd (snd a))) (snd (snd (snd a))) off
                  (off + int (length (fst a))) (off + int (length word))"
        by (auto simp: lemmatize_def split: if_splits)
      then have "(ej_w0 r, ej_w1 r, ej_t0 r, ej_t1 r) \<in> set (lemmatizer word)" by simp
      then show ?thesis by blast
    qed
  qed
  from l len adds rp only show ?thesis by blast
qed

theorem C5_noun_and_predicate_are_separate_records_witness:
  "check_tag [49324, 46988] ''Noun'' example_noun_dic
   \<and> example_ida_lemmatizer [51060, 45796] \<noteq> []
   \<and> example_ida_lemmatizer [] = []
   \<and> Eojeol [49324, 46988] [] ''Noun'' None 0 (0 + 2) (0 + 2)
       \<in> set ([[Eojeol [49324, 46988] [] ''Noun'' None 0 2 2], [],
                 [Eojeol [51060] [45796] ''Adjective'' (Some ''Eomi'') 2 3 4], []] ! 0)"
proof -
  have 1: "check_tag [49324, 46988] ''Noun'' example_noun_dic"
    by (simp add: check_tag_def example_noun_dic_def)
  have 2: "example_ida_lemmatizer [51060, 45796] \<noteq> []"
    and 3: "example_ida_lemmatizer [] = []"
    by (simp_all add: example_ida_lemmatizer_def)
  from C5_noun_and_predicate_are_separate_records [OF 1 2 3, of 0]
  obtain bindex where
    "lr_lookup [49324, 46988, 51060, 45796] example_ida_lemmatizer example_noun_dic 0 = Inr bindex"
    and "Eojeol [49324, 46988] [] ''Noun'' None 0 (0 + 2) (0 + 2) \<in> set (bindex ! 0)"
    by blast
  then have "Eojeol [49324, 46988] [] ''Noun'' None 0 (0 + 2) (0 + 2)
       \<in> set ([[Eojeol [49324, 46988] [] ''Noun'' None 0 2 2], [],
                 [Eojeol [51060] [45796] ''Adjective'' (Some ''Eomi'') 2 3 4], []] ! 0)"
    unfolding example_saram_ida_lookup by simp
  with 1 2 3 show ?thesis by (intro conjI)
qed

text \<open>
  With the noun (49324, 46988) in the dictionary and the lemmatizer analysing (51060, 45796)
  as the adjective stem (51060) with the ending (45796), the lattice holds two records, and
  the right text of neither is (51060, 45796).
\<close>

theorem C5_no_two_part_record:
  "check_tag [49324, 46988] ''Noun'' example_noun_dic
   \<and> example_ida_lemmatizer [51060, 45796] \<noteq> []
   \<and> lr_lookup [49324, 46988, 51060, 45796] example_ida_lemmatizer example_noun_dic 0
     = Inr [[Eojeol [49324, 46988] [] ''Noun'' None 0 2 2], [],
            [Eojeol [51060] [45796] ''Adjective'' (Some ''Eomi'') 2 3 4], []]
   \<and> map ej_w1 (concat [[Eojeol [49324, 46988] [] ''Noun'' None 0 2 2], [],
            [Eojeol [51060] [45796] ''Adjective'' (Some ''Eomi'') 2 3 4], []])
     = [[], [45796]]
   \<and> [51060, 45796] \<notin> set [[], [45796::nat]]"
  using example_saram_ida_lookup
  by (simp add: check_tag_def example_noun_dic_def example_ida_lemmatizer_def)

end
